theory Spec2Isabelle
  imports Main "HOL-Library.Word"
begin

section \<open>Strings and values of the source language\<close>

text \<open>
  A JavaScript string is a sequence of UTF-16 code units; regular expressions without the
  \<^verbatim>\<open>u\<close> flag, \<^verbatim>\<open>slice\<close>, \<^verbatim>\<open>includes\<close> and \<^verbatim>\<open>trim\<close> all work on code units.
  The source uses code units beyond Latin-1 (the ellipsis U+2026, the em dash U+2014, the
  byte-order mark U+FEFF), so a string is a list of code units as natural numbers, and
  \<open>js\<close> turns an ASCII literal into one.
\<close>

type_synonym jstr = "nat list"

definition js :: "string \<Rightarrow> jstr" where
  "js s = map of_char s"

text \<open>
  The values a property read on an object literal can give: a string stored in the literal,
  or, for a key the literal does not own, the member that \<^verbatim>\<open>Object.prototype\<close> has
  under that key (a function or an object, always truthy). \<open>None\<close> is \<^verbatim>\<open>undefined\<close>.
\<close>

datatype jsval = JStr jstr | JProto jstr

definition object_prototype_keys :: "jstr list" where
  "object_prototype_keys =
     [js ''constructor'', js ''__defineGetter__'', js ''__defineSetter__'',
      js ''hasOwnProperty'', js ''__lookupGetter__'', js ''__lookupSetter__'',
      js ''isPrototypeOf'', js ''propertyIsEnumerable'', js ''toString'',
      js ''valueOf'', js ''__proto__'', js ''toLocaleString'']"

definition obj_get :: "(jstr \<times> jstr) list \<Rightarrow> jstr \<Rightarrow> jsval option" where
  "obj_get tbl k =
     (case map_of tbl k of
        Some v \<Rightarrow> Some (JStr v)
      | None \<Rightarrow> if k \<in> set object_prototype_keys then Some (JProto k) else None)"

fun truthy :: "jsval option \<Rightarrow> bool" where
  "truthy None = False"
| "truthy (Some (JStr s)) = (s \<noteq> [])"
| "truthy (Some (JProto k)) = True"

text \<open>\<^verbatim>\<open>a || b\<close> where \<open>b\<close> is a value.\<close>

definition js_or :: "jsval option \<Rightarrow> jsval \<Rightarrow> jsval" where
  "js_or a b = (if truthy a then the a else b)"

datatype js_error = TypeError

section \<open>Severity (pattern-tracker.js)\<close>

definition BASE_SEVERITY :: "(jstr \<times> jstr) list" where
  "BASE_SEVERITY =
     [(js ''Docker'', js ''high''),
      (js ''npm'', js ''high''),
      (js ''Build'', js ''high''),
      (js ''TypeScript'', js ''medium''),
      (js ''Jest/Vitest'', js ''medium''),
      (js ''Node'', js ''high''),
      (js ''ESLint'', js ''low''),
      (js ''Generic'', js ''low'')]"

definition classifySeverity :: "jstr \<Rightarrow> nat \<Rightarrow> jsval" where
  "classifySeverity ruleName stats7d =
     (let base = js_or (obj_get BASE_SEVERITY ruleName) (JStr (js ''low''))
      in if stats7d \<ge> 5 then JStr (js ''high'') else base)"

section \<open>Step lookup (error-detector.js)\<close>

record step_start =
  idx :: int
  name :: jstr

text \<open>
  \<^verbatim>\<open>(lo + hi) >> 1\<close>: the sum is converted to a signed 32-bit integer and shifted
  arithmetically.
\<close>

definition to_int32 :: "int \<Rightarrow> int" where
  "to_int32 n = (n + 2 ^ 31) mod 2 ^ 32 - 2 ^ 31"

definition sar1 :: "int \<Rightarrow> int" where
  "sar1 n = to_int32 n div 2"

text \<open>
  The \<^verbatim>\<open>while (lo <= hi)\<close> loop. Reading \<^verbatim>\<open>stepStarts[mid].idx\<close> outside the array
  is a property read on \<^verbatim>\<open>undefined\<close>, a TypeError. The loop is a partial function:
  \<open>None\<close> is the loop that does not return.
\<close>

partial_function (option) bsearch_loop ::
  "step_start list \<Rightarrow> int \<Rightarrow> int \<Rightarrow> int \<Rightarrow> (js_error + int) option" where
  "bsearch_loop stepStarts lineIndex lo hi =
     (if lo \<le> hi then
        (let mid = sar1 (lo + hi) in
         if 0 \<le> mid \<and> mid < int (length stepStarts) then
           (if idx (stepStarts ! nat mid) \<le> lineIndex
            then bsearch_loop stepStarts lineIndex (mid + 1) hi
            else bsearch_loop stepStarts lineIndex lo (mid - 1))
         else Some (Inl TypeError))
      else Some (Inr hi))"

definition findStepForLineIndex :: "step_start list \<Rightarrow> int \<Rightarrow> (js_error + jstr) option" where
  "findStepForLineIndex stepStarts lineIndex =
     (if stepStarts = [] then Some (Inr (js ''Unknown step''))
      else
        (case bsearch_loop stepStarts lineIndex 0 (int (length stepStarts) - 1) of
           None \<Rightarrow> None
         | Some (Inl e) \<Rightarrow> Some (Inl e)
         | Some (Inr hi) \<Rightarrow>
             (let k = max 0 hi in
              if k < int (length stepStarts) then Some (Inr (name (stepStarts ! nat k)))
              else Some (Inl TypeError))))"

text \<open>The boundary list of the specification's example.\<close>

definition ex_steps :: "step_start list" where
  "ex_steps = [\<lparr>idx = 0, name = js ''A''\<rparr>, \<lparr>idx = 10, name = js ''B''\<rparr>, \<lparr>idx = 25, name = js ''C''\<rparr>]"

section \<open>Regular expressions of the source\<close>

text \<open>
  The character classes of ECMAScript regular expressions without the \<^verbatim>\<open>u\<close> flag:
  \<^verbatim>\<open>\d\<close>, \<^verbatim>\<open>\w\<close>, \<^verbatim>\<open>\s\<close> (WhiteSpace and LineTerminator), and \<^verbatim>\<open>.\<close>
  (everything but a LineTerminator).
\<close>

definition is_digit :: "nat \<Rightarrow> bool" where
  "is_digit c = (48 \<le> c \<and> c \<le> 57)"

definition is_upper :: "nat \<Rightarrow> bool" where
  "is_upper c = (65 \<le> c \<and> c \<le> 90)"

definition is_lower :: "nat \<Rightarrow> bool" where
  "is_lower c = (97 \<le> c \<and> c \<le> 122)"

definition is_word :: "nat \<Rightarrow> bool" where
  "is_word c = (is_digit c \<or> is_upper c \<or> is_lower c \<or> c = 95)"

definition is_line_terminator :: "nat \<Rightarrow> bool" where
  "is_line_terminator c = (c = 10 \<or> c = 13 \<or> c = 8232 \<or> c = 8233)"

definition is_space :: "nat \<Rightarrow> bool" where
  "is_space c = (c = 9 \<or> c = 10 \<or> c = 11 \<or> c = 12 \<or> c = 13 \<or> c = 32 \<or> c = 160 \<or>
     c = 5760 \<or> (8192 \<le> c \<and> c \<le> 8202) \<or> c = 8232 \<or> c = 8233 \<or> c = 8239 \<or>
     c = 8287 \<or> c = 12288 \<or> c = 65279)"

definition not_space :: "nat \<Rightarrow> bool" where
  "not_space c = (\<not> is_space c)"

definition is_dot :: "nat \<Rightarrow> bool" where
  "is_dot c = (\<not> is_line_terminator c)"

text \<open>\<^verbatim>\<open>[0-9a-fA-F]\<close>, \<^verbatim>\<open>[0-9a-f]\<close>, \<^verbatim>\<open>[1-9]\<close> and \<^verbatim>\<open>[A-Z]\<close>.\<close>

definition is_hex :: "nat \<Rightarrow> bool" where
  "is_hex c = (is_digit c \<or> (97 \<le> c \<and> c \<le> 102) \<or> (65 \<le> c \<and> c \<le> 70))"

definition is_lower_hex :: "nat \<Rightarrow> bool" where
  "is_lower_hex c = (is_digit c \<or> (97 \<le> c \<and> c \<le> 102))"

definition is_digit19 :: "nat \<Rightarrow> bool" where
  "is_digit19 c = (49 \<le> c \<and> c \<le> 57)"

text \<open>
  The flags \<^verbatim>\<open>i\<close> and \<^verbatim>\<open>m\<close>. Under \<^verbatim>\<open>i\<close> a pattern character and an input
  character are compared after canonicalisation, which for the ASCII patterns of the
  source identifies exactly the two cases of an ASCII letter (a code unit from 128 on never
  canonicalises to an ASCII one).
\<close>

record flags =
  ignoreCase :: bool
  multiline :: bool

definition toggle_case :: "nat \<Rightarrow> nat" where
  "toggle_case c = (if is_upper c then c + 32 else if is_lower c then c - 32 else c)"

definition cmatch :: "flags \<Rightarrow> (nat \<Rightarrow> bool) \<Rightarrow> nat \<Rightarrow> bool" where
  "cmatch fl P c = (P c \<or> (ignoreCase fl \<and> P (toggle_case c)))"

text \<open>
  The fragment of the pattern language the source uses: literal text, one character of a
  class, a greedy bounded repetition of a class (\<^verbatim>\<open>*\<close>, \<^verbatim>\<open>+\<close>, \<^verbatim>\<open>{m,n}\<close>), sequence,
  alternation, a greedy optional group, and the assertions \<^verbatim>\<open>^\<close>, \<^verbatim>\<open>$\<close> and
  \<^verbatim>\<open>\b\<close>.
\<close>

datatype re =
    Lit jstr
  | Cls "nat \<Rightarrow> bool"
  | Rep "nat \<Rightarrow> bool" nat "nat option"
  | Seq re re
  | Alt re re
  | Opt re
  | Bol
  | Eol
  | WordB

fun seqs :: "re list \<Rightarrow> re" where
  "seqs [] = Lit []"
| "seqs [r] = r"
| "seqs (r # rs) = Seq r (seqs rs)"

fun alts :: "re list \<Rightarrow> re" where
  "alts [] = Lit []"
| "alts [r] = r"
| "alts (r # rs) = Alt r (alts rs)"

definition rep_star :: "(nat \<Rightarrow> bool) \<Rightarrow> re" where
  "rep_star P = Rep P 0 None"

definition rep_plus :: "(nat \<Rightarrow> bool) \<Rightarrow> re" where
  "rep_plus P = Rep P 1 None"

definition rep_n :: "(nat \<Rightarrow> bool) \<Rightarrow> nat \<Rightarrow> re" where
  "rep_n P n = Rep P n (Some n)"

text \<open>
  The backtracking matcher. A position in the input is the character before it (if any)
  and the rest of the input; \<open>rmatch\<close> lists the lengths of the matches that start there,
  in the order in which backtracking tries them, so the head is the match ECMAScript
  reports at that position.
\<close>

definition prev_after :: "nat option \<Rightarrow> jstr \<Rightarrow> nat \<Rightarrow> nat option" where
  "prev_after p s n = (if n = 0 then p else Some (s ! (n - 1)))"

fun lit_match :: "flags \<Rightarrow> jstr \<Rightarrow> jstr \<Rightarrow> bool" where
  "lit_match fl [] s = True"
| "lit_match fl (a # w) [] = False"
| "lit_match fl (a # w) (c # s) = (cmatch fl (\<lambda>x. x = a) c \<and> lit_match fl w s)"

fun rmatch :: "flags \<Rightarrow> re \<Rightarrow> nat option \<Rightarrow> jstr \<Rightarrow> nat list" where
  "rmatch fl (Lit w) p s = (if lit_match fl w s then [length w] else [])"
| "rmatch fl (Cls P) p s =
     (case s of [] \<Rightarrow> [] | c # _ \<Rightarrow> if cmatch fl P c then [1] else [])"
| "rmatch fl (Rep P lo hi) p s =
     (let n = length (takeWhile (cmatch fl P) s);
          m = (case hi of None \<Rightarrow> n | Some h \<Rightarrow> min h n)
      in if m < lo then [] else rev [lo ..< Suc m])"
| "rmatch fl (Seq a b) p s =
     concat (map (\<lambda>n. map (\<lambda>k. n + k) (rmatch fl b (prev_after p s n) (drop n s)))
                 (rmatch fl a p s))"
| "rmatch fl (Alt a b) p s = rmatch fl a p s @ rmatch fl b p s"
| "rmatch fl (Opt a) p s = rmatch fl a p s @ [0]"
| "rmatch fl Bol p s =
     (case p of None \<Rightarrow> [0]
      | Some c \<Rightarrow> if multiline fl \<and> is_line_terminator c then [0] else [])"
| "rmatch fl Eol p s =
     (case s of [] \<Rightarrow> [0]
      | c # _ \<Rightarrow> if multiline fl \<and> is_line_terminator c then [0] else [])"
| "rmatch fl WordB p s =
     (let a = (case p of None \<Rightarrow> False | Some c \<Rightarrow> is_word c);
          b = (case s of [] \<Rightarrow> False | c # _ \<Rightarrow> is_word c)
      in if a \<noteq> b then [0] else [])"

text \<open>
  The first match at or after a position: its offset from that position and its length
  (\<^verbatim>\<open>RegExp.prototype.exec\<close> on a pattern without the sticky flag). \<^verbatim>\<open>test\<close> on a
  pattern without the \<^verbatim>\<open>g\<close> flag searches from the start of the string.
\<close>

fun re_search :: "flags \<Rightarrow> re \<Rightarrow> nat option \<Rightarrow> jstr \<Rightarrow> (nat \<times> nat) option" where
  "re_search fl r p [] = (case rmatch fl r p [] of [] \<Rightarrow> None | n # _ \<Rightarrow> Some (0, n))"
| "re_search fl r p (c # cs) =
     (case rmatch fl r p (c # cs) of
        n # _ \<Rightarrow> Some (0, n)
      | [] \<Rightarrow> map_option (\<lambda>(k, n). (Suc k, n)) (re_search fl r (Some c) cs))"

definition re_test :: "flags \<Rightarrow> re \<Rightarrow> jstr \<Rightarrow> bool" where
  "re_test fl r s = (re_search fl r None s \<noteq> None)"

definition flags_none :: flags where
  "flags_none = \<lparr>ignoreCase = False, multiline = False\<rparr>"

definition flags_i :: flags where
  "flags_i = \<lparr>ignoreCase = True, multiline = False\<rparr>"

definition flags_m :: flags where
  "flags_m = \<lparr>ignoreCase = False, multiline = True\<rparr>"

section \<open>Error detection (error-detector.js)\<close>

text \<open>
  A custom rule carries a compiled \<^verbatim>\<open>RegExp\<close>, built by \<^verbatim>\<open>parseCustomRules\<close> from
  the user's pattern with the flag \<^verbatim>\<open>i\<close> alone. Such an object has no \<^verbatim>\<open>g\<close> or
  \<^verbatim>\<open>y\<close> flag, so its \<^verbatim>\<open>test\<close> is a function of the line; the user's pattern may use
  any feature of the pattern language, so the rule holds that function.
\<close>

record custom_rule =
  rule_name :: jstr
  rule_re :: "jstr \<Rightarrow> bool"
  hint :: jstr

record hit =
  rule :: jstr
  line :: jstr
  excerpt :: "jstr list"
  lineIndex :: nat

text \<open>The built-in rules, in the order of the array literal.\<close>

definition error_or_failed :: re where
  "error_or_failed = alts [Lit (js ''error''), Lit (js ''failed'')]"

definition builtin_rules :: "(jstr \<times> flags \<times> re) list" where
  "builtin_rules =
    [(js ''ESLint'', flags_i,
        seqs [Bol, rep_star is_space, rep_plus is_digit, Lit (js '':''), rep_plus is_digit,
              rep_plus is_space, alts [Lit (js ''error''), Lit (js ''warning'')],
              rep_plus is_space, rep_plus is_dot, rep_plus is_space, rep_plus is_dot, Eol]),
     (js ''ESLint'', flags_i,
        seqs [WordB, Lit (js ''ESLint''), WordB, rep_star is_dot,
              alts [Lit (js ''found''), Seq (Lit (js ''problem'')) (Opt (Lit (js ''s'')))]]),
     (js ''ESLint'', flags_i,
        seqs [Lit (js ''eslint''), Opt (Lit (js ''.js'')), Lit (js '':''), rep_plus is_space,
              rep_star is_dot, error_or_failed]),
     (js ''TypeScript'', flags_i,
        seqs [Lit (js ''error TS''), rep_plus is_digit, Lit (js '':'')]),
     (js ''TypeScript'', flags_i,
        alts [Lit (js ''Type error:''),
              seqs [Lit (js ''TS''), Rep is_digit 3 (Some 5), WordB]]),
     (js ''npm'', flags_i, seqs [WordB, Lit (js ''npm ERR!''), WordB]),
     (js ''npm'', flags_i, seqs [WordB, Lit (js ''ERR_PNPM_''), rep_plus is_word, WordB]),
     (js ''npm'', flags_i,
        seqs [WordB, Lit (js ''yarn ''), alts [Lit (js ''run''), Lit (js ''install'')], WordB,
              rep_star is_dot, error_or_failed]),
     (js ''Jest/Vitest'', flags_none,
        seqs [Bol, alts [Lit (js ''FAIL''), Lit [9679]], WordB]),
     (js ''Jest/Vitest'', flags_none,
        alts [seqs [Lit (js ''Test Suites: ''), rep_plus is_digit, Lit (js '' failed'')],
              Lit (js ''AssertionError'')]),
     (js ''Build'', flags_i,
        seqs [WordB, alts [Lit (js ''vite''), Lit (js ''webpack'')], WordB,
              rep_star is_dot, error_or_failed]),
     (js ''Build'', flags_i, seqs [WordB, Lit (js ''Build failed''), WordB]),
     (js ''Docker'', flags_i,
        alts [Lit (js ''failed to solve''), Lit (js ''executor failed''),
              Lit (js ''ERROR: failed''), Lit (js ''docker buildx''),
              seqs [Lit (js ''#''), rep_plus is_digit, Lit (js '' ERROR'')]]),
     (js ''pytest'', flags_i,
        seqs [Lit (js ''FAILED''), rep_plus is_space, rep_plus not_space, Lit (js ''.py'')]),
     (js ''pytest'', flags_i,
        seqs [Lit (js ''ERROR''), rep_plus is_space, rep_plus not_space, Lit (js ''.py'')]),
     (js ''mypy'', flags_i,
        seqs [Lit (js ''.py:''), rep_plus is_digit, Lit (js '': error:'')]),
     (js ''ruff/flake8'', flags_i,
        seqs [Lit (js ''.py:''), rep_plus is_digit, Lit (js '':''), rep_plus is_digit,
              Lit (js '':''), rep_plus is_space, Cls is_upper, rep_plus is_digit]),
     (js ''pip'', flags_i, seqs [Lit (js ''ERROR:''), rep_star is_dot, Lit (js ''pip'')]),
     (js ''Go'', flags_i, Lit (js ''--- FAIL:'')),
     (js ''Go'', flags_i,
        seqs [Lit (js ''.go:''), rep_plus is_digit, Lit (js '':''), rep_plus is_digit,
              Lit (js '':'')]),
     (js ''Go'', flags_i, Lit (js ''cannot find package'')),
     (js ''Go'', flags_i, seqs [WordB, Lit (js ''undefined:'')]),
     (js ''Java'', flags_i,
        seqs [Lit (js ''error:''), rep_plus is_space, rep_star is_dot, Lit (js ''java'')]),
     (js ''Java'', flags_i,
        seqs [WordB, Lit (js ''javac''), WordB, rep_star is_dot, Lit (js ''error'')]),
     (js ''Java'', flags_i, Lit (js ''COMPILATION ERROR'')),
     (js ''Maven'', flags_i,
        seqs [Lit (js ''[ERROR]''), rep_star is_dot, Lit (js ''BUILD FAILURE'')]),
     (js ''Maven'', flags_i,
        seqs [Lit (js ''[ERROR]''), rep_star is_dot, Lit (js ''Failed to execute goal'')]),
     (js ''Gradle'', flags_i, Lit (js ''FAILURE: Build failed'')),
     (js ''Gradle'', flags_i, Lit (js ''Execution failed for task'')),
     (js ''JUnit'', flags_i,
        seqs [Lit (js ''Tests run:''), rep_star is_dot, Lit (js ''Failures: ''),
              Cls is_digit19]),
     (js ''JUnit'', flags_i,
        seqs [WordB, Lit (js ''FAILURE!''), WordB, rep_star is_dot, Lit (js ''Tests run'')]),
     (js ''Node'', flags_none,
        seqs [WordB,
              alts [Lit (js ''TypeError''), Lit (js ''ReferenceError''),
                    Lit (js ''SyntaxError'')],
              WordB]),
     (js ''Node'', flags_i,
        alts [seqs [WordB, Lit (js ''UnhandledPromiseRejection''), WordB],
              seqs [WordB, Lit (js ''Unhandled rejection''), WordB]])]"

text \<open>The two patterns of the fallback scan.\<close>

definition annotation_re :: re where
  "annotation_re =
     seqs [Lit (js ''##[''),
           alts [Lit (js ''group''), Lit (js ''endgroup''), Lit (js ''debug''),
                 Lit (js ''notice'')],
           Lit (js '']'')]"

definition failure_re :: re where
  "failure_re =
     alts [seqs [WordB, Lit (js ''error''), WordB], Lit (js ''exception''),
           Lit (js ''failed'')]"

definition fallback_line :: "jstr \<Rightarrow> bool" where
  "fallback_line l =
     (if l = [] then False
      else if re_test flags_i annotation_re l then False
      else re_test flags_i failure_re l)"

text \<open>\<^verbatim>\<open>Array.prototype.findIndex\<close>; \<open>None\<close> is \<open>-1\<close>.\<close>

fun findIndex :: "('a \<Rightarrow> bool) \<Rightarrow> 'a list \<Rightarrow> nat option" where
  "findIndex P [] = None"
| "findIndex P (x # xs) = (if P x then Some 0 else map_option Suc (findIndex P xs))"

text \<open>\<^verbatim>\<open>Array.prototype.slice(start, end)\<close> on integers, negative ones counting from the end.\<close>

definition js_slice :: "'a list \<Rightarrow> int \<Rightarrow> int \<Rightarrow> 'a list" where
  "js_slice xs a b =
     (let len = int (length xs);
          k = (if a < 0 then max (len + a) 0 else min a len);
          e = (if b < 0 then max (len + b) 0 else min b len)
      in take (nat (e - k)) (drop (nat k) xs))"

definition make_hit :: "jstr \<Rightarrow> jstr list \<Rightarrow> nat \<Rightarrow> hit" where
  "make_hit nm lines i =
     \<lparr>rule = nm, line = lines ! i,
      excerpt = js_slice lines (max 0 (int i - 2)) (min (int (length lines)) (int i + 12)),
      lineIndex = i\<rparr>"

text \<open>The loop \<^verbatim>\<open>for (const rule of rules)\<close>, returning at the first rule that has a line.\<close>

fun first_rule_hit :: "(jstr \<times> (jstr \<Rightarrow> bool)) list \<Rightarrow> jstr list \<Rightarrow> hit option" where
  "first_rule_hit [] lines = None"
| "first_rule_hit ((nm, t) # rules) lines =
     (case findIndex t lines of
        Some i \<Rightarrow> Some (make_hit nm lines i)
      | None \<Rightarrow> first_rule_hit rules lines)"

definition all_rules :: "custom_rule list \<Rightarrow> (jstr \<times> (jstr \<Rightarrow> bool)) list" where
  "all_rules customRules =
     map (\<lambda>r. (rule_name r, rule_re r)) customRules @
     map (\<lambda>(nm, fl, r). (nm, re_test fl r)) builtin_rules"

definition pickFirstMeaningfulError :: "jstr list \<Rightarrow> custom_rule list \<Rightarrow> hit option" where
  "pickFirstMeaningfulError lines customRules =
     (case first_rule_hit (all_rules customRules) lines of
        Some h \<Rightarrow> Some h
      | None \<Rightarrow>
          (case findIndex fallback_line lines of
             Some i \<Rightarrow> Some (make_hit (js ''Generic'') lines i)
           | None \<Rightarrow> None))"

text \<open>
  The fallback scan in the words of the specification: a line has a token when the token
  occurs in it up to the case of ASCII letters, and has it as a word when the occurrence is
  not adjacent to a word character. These definitions follow the specification, not the
  patterns; the fallback scan is compared with them below.
\<close>

definition ci_eq :: "jstr \<Rightarrow> jstr \<Rightarrow> bool" where
  "ci_eq w m = list_all2 (\<lambda>a c. c = a \<or> toggle_case c = a) w m"

definition has_token :: "jstr \<Rightarrow> jstr \<Rightarrow> bool" where
  "has_token w l = (\<exists>pre m post. l = pre @ m @ post \<and> ci_eq w m)"

definition has_word :: "jstr \<Rightarrow> jstr \<Rightarrow> bool" where
  "has_word w l =
     (\<exists>pre m post. l = pre @ m @ post \<and> ci_eq w m \<and>
        (pre = [] \<or> \<not> is_word (last pre)) \<and> (post = [] \<or> \<not> is_word (hd post)))"

definition annotation_line :: "jstr \<Rightarrow> bool" where
  "annotation_line l =
     (has_token (js ''##[group]'') l \<or> has_token (js ''##[endgroup]'') l \<or>
      has_token (js ''##[debug]'') l \<or> has_token (js ''##[notice]'') l)"

definition generic_failure_line :: "jstr \<Rightarrow> bool" where
  "generic_failure_line l =
     ((has_word (js ''error'') l \<or> has_token (js ''exception'') l \<or>
       has_token (js ''failed'') l) \<and> \<not> annotation_line l)"

text \<open>
  The pair of a rule index and a line index that the specification designates: the first
  rule of the list with a matching line, and the first line that this rule matches.
\<close>

definition first_match :: "(jstr \<times> (jstr \<Rightarrow> bool)) list \<Rightarrow> jstr list \<Rightarrow> nat \<Rightarrow> nat \<Rightarrow> bool" where
  "first_match rules lines k i =
     (k < length rules \<and> i < length lines \<and> snd (rules ! k) (lines ! i) \<and>
      (\<forall>k'<k. \<forall>l \<in> set lines. \<not> snd (rules ! k') l) \<and>
      (\<forall>i'<i. \<not> snd (rules ! k) (lines ! i')))"

definition no_rule_matches :: "(jstr \<times> (jstr \<Rightarrow> bool)) list \<Rightarrow> jstr list \<Rightarrow> bool" where
  "no_rule_matches rules lines = (\<forall>r \<in> set rules. \<forall>l \<in> set lines. \<not> snd r l)"

definition first_generic :: "jstr list \<Rightarrow> nat \<Rightarrow> bool" where
  "first_generic lines i =
     (i < length lines \<and> generic_failure_line (lines ! i) \<and>
      (\<forall>i'<i. \<not> generic_failure_line (lines ! i')))"

text \<open>A log of twenty lines whose line 3 is an ESLint finding, and a log with no finding.\<close>

definition ex_log :: "jstr list" where
  "ex_log =
     [js ''l0'', js ''l1'', js ''l2'', js ''1:1 error a b'', js ''l4'', js ''l5'', js ''l6'',
      js ''l7'', js ''l8'', js ''l9'', js ''l10'', js ''l11'', js ''l12'', js ''l13'',
      js ''l14'', js ''l15'', js ''l16'', js ''l17'', js ''l18'', js ''l19'']"

definition ex_rule :: custom_rule where
  "ex_rule = \<lparr>rule_name = js ''Mine'', rule_re = re_test flags_i (Lit (js ''boom'')), hint = []\<rparr>"

definition ex_hit :: hit where
  "ex_hit = make_hit (js ''ESLint'') ex_log 3"

section \<open>Normalisation and signatures (utils.js, index.js)\<close>

text \<open>
  \<^verbatim>\<open>String.prototype.replace\<close> with a pattern that has the \<^verbatim>\<open>g\<close> flag and a
  replacement text without \<^verbatim>\<open>$\<close>: the input is scanned from the left; at a position
  where the pattern matches, the replacement is emitted and the scan goes on after the
  match (one character further after an empty match); elsewhere the character is copied.
\<close>

fun gsub :: "flags \<Rightarrow> re \<Rightarrow> jstr \<Rightarrow> nat option \<Rightarrow> jstr \<Rightarrow> jstr" where
  "gsub fl r rep p [] = (case rmatch fl r p [] of [] \<Rightarrow> [] | n # _ \<Rightarrow> rep)"
| "gsub fl r rep p (c # cs) =
     (case rmatch fl r p (c # cs) of
        [] \<Rightarrow> c # gsub fl r rep (Some c) cs
      | n # _ \<Rightarrow>
          if n = 0 then rep @ c # gsub fl r rep (Some c) cs
          else rep @ gsub fl r rep (prev_after p (c # cs) n) (drop n (c # cs)))"

definition replace_all :: "flags \<Rightarrow> re \<Rightarrow> jstr \<Rightarrow> jstr \<Rightarrow> jstr" where
  "replace_all fl r rep s = gsub fl r rep None s"

text \<open>\<^verbatim>\<open>String.prototype.trim\<close> removes WhiteSpace and LineTerminator at both ends.\<close>

definition trim :: "jstr \<Rightarrow> jstr" where
  "trim s = rev (dropWhile is_space (rev (dropWhile is_space s)))"

text \<open>The five patterns of \<^verbatim>\<open>normalize\<close>, all with the flag \<^verbatim>\<open>g\<close> alone.\<close>

definition timestamp_prefix_re :: re where
  "timestamp_prefix_re =
     seqs [Bol, Opt (Lit [65279]), rep_n is_digit 4, Lit (js ''-''), rep_n is_digit 2,
           Lit (js ''-''), rep_n is_digit 2, Lit (js ''T''), rep_n is_digit 2, Lit (js '':''),
           rep_n is_digit 2, Lit (js '':''), rep_n is_digit 2, Lit (js ''.''),
           rep_plus is_digit, Lit (js ''Z''), rep_plus is_space]"

definition hex_literal_re :: re where
  "hex_literal_re = seqs [WordB, Lit (js ''0x''), rep_plus is_hex, WordB]"

definition hash_token_re :: re where
  "hash_token_re = seqs [WordB, Rep is_lower_hex 7 (Some 40), WordB]"

definition line_col_re :: re where
  "line_col_re = seqs [Lit (js '':''), rep_plus is_digit, Lit (js '':''), rep_plus is_digit]"

definition line_re :: re where
  "line_re = seqs [Lit (js '':''), rep_plus is_digit]"

text \<open>The replacement texts \<^verbatim>\<open>0x\<close> U+2026 and U+2026 \<^verbatim>\<open>sha\<close> U+2026.\<close>

definition hex_placeholder :: jstr where
  "hex_placeholder = js ''0x'' @ [8230]"

definition sha_placeholder :: jstr where
  "sha_placeholder = [8230] @ js ''sha'' @ [8230]"

definition normalize_line :: "jstr \<Rightarrow> jstr" where
  "normalize_line ln =
     trim
       (replace_all flags_none line_re (js '':<line>'')
         (replace_all flags_none line_col_re (js '':<line>:<col>'')
           (replace_all flags_none hash_token_re sha_placeholder
             (replace_all flags_none hex_literal_re hex_placeholder
               (replace_all flags_none timestamp_prefix_re [] ln)))))"

text \<open>
  The signature of a hit and its fingerprint, as \<^verbatim>\<open>run\<close> builds them. The digest
  \<^verbatim>\<open>sha1\<close> comes from the runtime library and is a parameter here.
\<close>

definition signature :: "jstr \<Rightarrow> jstr \<Rightarrow> jstr" where
  "signature ruleName ln = ruleName @ js '': '' @ normalize_line ln"

definition signatureHash :: "(jstr \<Rightarrow> jstr) \<Rightarrow> jstr \<Rightarrow> jstr \<Rightarrow> jstr" where
  "signatureHash sha1 ruleName ln = sha1 (signature ruleName ln)"

text \<open>A line with a colon, a digit and forty letters \<^verbatim>\<open>a\<close>.\<close>

definition ex_long_hex :: jstr where
  "ex_long_hex = js '':1aaaaaaaaaaaaaaaaaaaaaaaaaaaaaaaaaaaaaaaa''"

definition ex_long_hex_once :: jstr where
  "ex_long_hex_once = js '':<line>aaaaaaaaaaaaaaaaaaaaaaaaaaaaaaaaaaaaaaaa''"

definition ex_long_hex_twice :: jstr where
  "ex_long_hex_twice = js '':<line>'' @ [8230] @ js ''sha'' @ [8230]"

text \<open>A text in which no colon is followed by a digit.\<close>

fun colon_digit_free :: "jstr \<Rightarrow> bool" where
  "colon_digit_free (a # b # s) = (\<not> (a = 58 \<and> is_digit b) \<and> colon_digit_free (b # s))"
| "colon_digit_free s = True"

section \<open>The issue store\<close>

text \<open>
  Modelled from the spec: the issue-tracker store behind \<^verbatim>\<open>octokit\<close> is an external
  service; section 6 of the specification gives its interface (search, get, create,
  update, addLabels, removeLabel, listLabels, comment) and the query semantics assumed:
  substring match within the title, exact label filter, state filter, one repository.
  A record is an issue; search results come in the order of the store, cut at the page
  size. A body that is \<^verbatim>\<open>null\<close> is the empty string, as \<^verbatim>\<open>issue.data.body || ""\<close>
  reads it.
\<close>

datatype issue_state = Open | Closed

record issue =
  number :: nat
  title :: jstr
  body :: jstr
  state :: issue_state
  labels :: "jstr list"
  comments :: "jstr list"
  html_url :: jstr

record pull_request =
  pr_number :: nat
  pr_title :: jstr
  pr_body :: jstr
  pr_merged :: bool

record store =
  issues :: "issue list"
  pulls :: "pull_request list"

text \<open>
  Every request can fail (network, rate limit, API error): the environment says which
  requests do. It also holds the clock, the runtime's \<^verbatim>\<open>Date\<close> parser, whose
  result \<open>None\<close> is the invalid date, and the address the store gives to a record.
\<close>

datatype api_call =
    SearchIssues "issue_state option"
  | SearchPulls nat
  | IssuesGet nat
  | IssuesUpdate nat
  | IssuesCreateComment nat
  | IssuesListLabels nat
  | IssuesRemoveLabel nat jstr
  | IssuesAddLabels nat
  | IssuesCreate

datatype api_error = RequestFailed api_call | NotFound nat

record env =
  faulty :: "api_call \<Rightarrow> bool"
  now :: int
  parse_date :: "jstr \<Rightarrow> int option"
  url_of :: "nat \<Rightarrow> jstr"

type_synonym 'a outcome = "(api_error + 'a) \<times> store"

text \<open>
  An \<^verbatim>\<open>await\<close> in sequence: a rejected request ends the function with the error and
  leaves the store as it is at that moment.
\<close>

definition bind :: "(store \<Rightarrow> 'a outcome) \<Rightarrow> ('a \<Rightarrow> store \<Rightarrow> 'b outcome) \<Rightarrow> store \<Rightarrow> 'b outcome" where
  "bind m f st = (case m st of (Inl e, st') \<Rightarrow> (Inl e, st') | (Inr x, st') \<Rightarrow> f x st')"

definition ret :: "'a \<Rightarrow> store \<Rightarrow> 'a outcome" where
  "ret x st = (Inr x, st)"

text \<open>\<^verbatim>\<open>String.prototype.includes\<close> and \<^verbatim>\<open>startsWith\<close>.\<close>

fun starts_with :: "jstr \<Rightarrow> jstr \<Rightarrow> bool" where
  "starts_with s [] = True"
| "starts_with [] (a # w) = False"
| "starts_with (c # s) (a # w) = (c = a \<and> starts_with s w)"

fun js_includes :: "jstr \<Rightarrow> jstr \<Rightarrow> bool" where
  "js_includes [] w = (w = [])"
| "js_includes (c # s) w = (starts_with (c # s) w \<or> js_includes s w)"

definition find_issue :: "store \<Rightarrow> nat \<Rightarrow> issue option" where
  "find_issue st n = List.find (\<lambda>i. number i = n) (issues st)"

definition map_issue :: "nat \<Rightarrow> (issue \<Rightarrow> issue) \<Rightarrow> store \<Rightarrow> store" where
  "map_issue n f st = st\<lparr>issues := map (\<lambda>i. if number i = n then f i else i) (issues st)\<rparr>"

definition api_search_issues ::
  "env \<Rightarrow> jstr option \<Rightarrow> jstr \<Rightarrow> issue_state option \<Rightarrow> nat \<Rightarrow> store \<Rightarrow> issue list outcome" where
  "api_search_issues e in_title label st_filter per_page st =
     (if faulty e (SearchIssues st_filter) then (Inl (RequestFailed (SearchIssues st_filter)), st)
      else ret (take per_page (filter (\<lambda>i.
              (case in_title of None \<Rightarrow> True | Some w \<Rightarrow> js_includes (title i) w) \<and>
              label \<in> set (labels i) \<and>
              (case st_filter of None \<Rightarrow> True | Some s \<Rightarrow> state i = s)) (issues st))) st)"

definition api_get :: "env \<Rightarrow> nat \<Rightarrow> store \<Rightarrow> issue outcome" where
  "api_get e n st =
     (if faulty e (IssuesGet n) then (Inl (RequestFailed (IssuesGet n)), st)
      else case find_issue st n of None \<Rightarrow> (Inl (NotFound n), st) | Some i \<Rightarrow> ret i st)"

definition api_update :: "env \<Rightarrow> nat \<Rightarrow> (issue \<Rightarrow> issue) \<Rightarrow> store \<Rightarrow> unit outcome" where
  "api_update e n f st =
     (if faulty e (IssuesUpdate n) then (Inl (RequestFailed (IssuesUpdate n)), st)
      else case find_issue st n of None \<Rightarrow> (Inl (NotFound n), st)
           | Some i \<Rightarrow> ret () (map_issue n f st))"

definition api_create_comment :: "env \<Rightarrow> nat \<Rightarrow> jstr \<Rightarrow> store \<Rightarrow> unit outcome" where
  "api_create_comment e n text st =
     (if faulty e (IssuesCreateComment n) then (Inl (RequestFailed (IssuesCreateComment n)), st)
      else case find_issue st n of None \<Rightarrow> (Inl (NotFound n), st)
           | Some i \<Rightarrow> ret () (map_issue n (\<lambda>i. i\<lparr>comments := comments i @ [text]\<rparr>) st))"

definition api_list_labels :: "env \<Rightarrow> nat \<Rightarrow> store \<Rightarrow> jstr list outcome" where
  "api_list_labels e n st =
     (if faulty e (IssuesListLabels n) then (Inl (RequestFailed (IssuesListLabels n)), st)
      else case find_issue st n of None \<Rightarrow> (Inl (NotFound n), st)
           | Some i \<Rightarrow> ret (take 100 (labels i)) st)"

definition api_remove_label :: "env \<Rightarrow> nat \<Rightarrow> jstr \<Rightarrow> store \<Rightarrow> unit outcome" where
  "api_remove_label e n l st =
     (if faulty e (IssuesRemoveLabel n l) then (Inl (RequestFailed (IssuesRemoveLabel n l)), st)
      else case find_issue st n of None \<Rightarrow> (Inl (NotFound n), st)
           | Some i \<Rightarrow> ret () (map_issue n (\<lambda>i. i\<lparr>labels := removeAll l (labels i)\<rparr>) st))"

definition api_add_labels :: "env \<Rightarrow> nat \<Rightarrow> jstr list \<Rightarrow> store \<Rightarrow> unit outcome" where
  "api_add_labels e n ls st =
     (if faulty e (IssuesAddLabels n) then (Inl (RequestFailed (IssuesAddLabels n)), st)
      else case find_issue st n of None \<Rightarrow> (Inl (NotFound n), st)
           | Some i \<Rightarrow>
               ret () (map_issue n
                 (\<lambda>i. i\<lparr>labels := labels i @ filter (\<lambda>l. l \<notin> set (labels i)) (remdups ls)\<rparr>) st))"

text \<open>The store assigns the identifier of a new record.\<close>

definition fresh_number :: "store \<Rightarrow> nat" where
  "fresh_number st = Suc (fold max (map number (issues st)) 0)"

definition api_create :: "env \<Rightarrow> jstr \<Rightarrow> jstr \<Rightarrow> jstr list \<Rightarrow> store \<Rightarrow> issue outcome" where
  "api_create e ttl bdy lbls st =
     (if faulty e IssuesCreate then (Inl (RequestFailed IssuesCreate), st)
      else
        (let i = \<lparr>number = fresh_number st, title = ttl, body = bdy, state = Open,
                  labels = remdups lbls, comments = [],
                  html_url = url_of e (fresh_number st)\<rparr>
         in ret i (st\<lparr>issues := issues st @ [i]\<rparr>)))"

definition api_search_pulls :: "env \<Rightarrow> nat \<Rightarrow> jstr \<Rightarrow> nat \<Rightarrow> store \<Rightarrow> pull_request list outcome" where
  "api_search_pulls e n term per_page st =
     (if faulty e (SearchPulls n) then (Inl (RequestFailed (SearchPulls n)), st)
      else ret (take per_page (filter (\<lambda>p.
              pr_merged p \<and> (js_includes (pr_title p) term \<or> js_includes (pr_body p) term))
              (pulls st))) st)"

section \<open>Pattern tracking (pattern-tracker.js)\<close>

text \<open>Decimal digits of a number in a template literal; \<open>None\<close> is \<^verbatim>\<open>NaN\<close>.\<close>

fun show_digits :: "nat \<Rightarrow> nat \<Rightarrow> jstr" where
  "show_digits 0 n = []"
| "show_digits (Suc fuel) n =
     (if n < 10 then [48 + n] else show_digits fuel (n div 10) @ [48 + n mod 10])"

definition show_nat :: "nat \<Rightarrow> jstr" where
  "show_nat n = show_digits (Suc n) n"

definition show_number :: "int option \<Rightarrow> jstr" where
  "show_number x =
     (case x of None \<Rightarrow> js ''NaN''
      | Some d \<Rightarrow> if d < 0 then js ''-'' @ show_nat (nat (- d)) else show_nat (nat d))"

text \<open>
  Text of a value in a template literal. The inherited members print as the runtime prints
  native functions and plain objects.
\<close>

definition js_to_string :: "jsval \<Rightarrow> jstr" where
  "js_to_string v =
     (case v of JStr s \<Rightarrow> s
      | JProto k \<Rightarrow>
          if k = js ''__proto__'' then js ''[object Object]''
          else js ''function '' @ (if k = js ''constructor'' then js ''Object'' else k) @
               js ''() { [native code] }'')"

text \<open>
  \<^verbatim>\<open>String.prototype.replace\<close> with a pattern without the \<^verbatim>\<open>g\<close> flag: the first
  match is replaced. In the replacement text \<^verbatim>\<open>$$\<close> is a dollar sign, \<^verbatim>\<open>$&\<close> the
  match, \<^verbatim>\<open>$`\<close> the text before the match and \<^verbatim>\<open>$'\<close> the text after it; the patterns
  used here have no groups, so every other \<^verbatim>\<open>$\<close> stands for itself.
\<close>

fun expand_replacement :: "jstr \<Rightarrow> jstr \<Rightarrow> jstr \<Rightarrow> jstr \<Rightarrow> jstr" where
  "expand_replacement [] m b a = []"
| "expand_replacement [c] m b a = [c]"
| "expand_replacement (c # d # t) m b a =
     (if c = 36 \<and> d = 36 then 36 # expand_replacement t m b a
      else if c = 36 \<and> d = 38 then m @ expand_replacement t m b a
      else if c = 36 \<and> d = 96 then b @ expand_replacement t m b a
      else if c = 36 \<and> d = 39 then a @ expand_replacement t m b a
      else c # expand_replacement (d # t) m b a)"

definition replace_first :: "flags \<Rightarrow> re \<Rightarrow> jstr \<Rightarrow> jstr \<Rightarrow> jstr" where
  "replace_first fl r template s =
     (case re_search fl r None s of
        None \<Rightarrow> s
      | Some (k, n) \<Rightarrow>
          take k s @
          expand_replacement template (take n (drop k s)) (take k s) (drop (k + n) s) @
          drop (k + n) s)"

text \<open>
  The loop \<^verbatim>\<open>while ((m = re.exec(body)) !== null)\<close> on a pattern with the \<^verbatim>\<open>g\<close> flag:
  the texts of the successive matches. The pattern of the loop matches no empty text, so
  every match moves the search position forward.
\<close>

fun scan_all :: "flags \<Rightarrow> re \<Rightarrow> nat option \<Rightarrow> jstr \<Rightarrow> jstr list" where
  "scan_all fl r p [] = []"
| "scan_all fl r p (c # cs) =
     (case rmatch fl r p (c # cs) of
        [] \<Rightarrow> scan_all fl r (Some c) cs
      | n # _ \<Rightarrow>
          if n = 0 then scan_all fl r (Some c) cs
          else take n (c # cs) #
               scan_all fl r (prev_after p (c # cs) n) (drop n (c # cs)))"

definition nl :: jstr where
  "nl = [10]"

definition em_dash :: jstr where
  "em_dash = [32, 8212, 32]"

definition ISSUE_MARKER :: jstr where
  "ISSUE_MARKER = js ''<!-- pattern-signature:v0 -->''"

definition bullet_re :: re where
  "bullet_re =
     seqs [Bol, Lit (js ''- ''), rep_n is_digit 4, Lit (js ''-''), rep_n is_digit 2,
           Lit (js ''-''), rep_n is_digit 2, Lit (js ''T''), rep_n is_digit 2, Lit (js '':''),
           rep_n is_digit 2, Lit (js '':''), rep_n is_digit 2, Lit (js ''.''),
           rep_n is_digit 3, Lit (js ''Z'')]"

text \<open>The capture group of the bullet pattern is the match without its first two characters.\<close>

definition parseOccurrenceTimestamps :: "env \<Rightarrow> jstr \<Rightarrow> int option list" where
  "parseOccurrenceTimestamps e bdy =
     map (\<lambda>m. parse_date e (drop 2 m)) (scan_all flags_m bullet_re None bdy)"

text \<open>Comparisons of dates compare their time values; with an invalid date they are false.\<close>

definition date_ge :: "int option \<Rightarrow> int \<Rightarrow> bool" where
  "date_ge ts d = (case ts of None \<Rightarrow> False | Some t \<Rightarrow> t \<ge> d)"

definition date_gt :: "int option \<Rightarrow> int option \<Rightarrow> bool" where
  "date_gt a b = (case (a, b) of (Some x, Some y) \<Rightarrow> x > y | _ \<Rightarrow> False)"

record window_stats =
  last7 :: nat
  last14 :: nat

definition computeWindowStats :: "int option list \<Rightarrow> int \<Rightarrow> window_stats" where
  "computeWindowStats timestamps nw =
     (let d7 = nw - 7 * 86400000; d14 = nw - 14 * 86400000
      in \<lparr>last7 = length (filter (\<lambda>ts. date_ge ts d7) timestamps),
          last14 = length (filter (\<lambda>ts. date_ge ts d14) timestamps)\<rparr>)"

definition stats_re :: re where
  "stats_re = seqs [Bol, Lit (js ''**Last 7d:**''), rep_plus is_dot, Eol]"

definition occurrences_line_start_re :: re where
  "occurrences_line_start_re = seqs [Bol, Lit (js ''## Occurrences'')]"

definition appendStatsLine :: "jstr \<Rightarrow> window_stats \<Rightarrow> jstr" where
  "appendStatsLine bdy stats =
     (let statsLine = js ''**Last 7d:** '' @ show_nat (last7 stats) @ js '' | **Last 14d:** '' @
                      show_nat (last14 stats)
      in if re_test flags_m stats_re bdy then replace_first flags_m stats_re statsLine bdy
         else replace_first flags_m occurrences_line_start_re
                (statsLine @ nl @ nl @ js ''## Occurrences'') bdy)"

definition applySeverityLabel :: "env \<Rightarrow> nat \<Rightarrow> jsval \<Rightarrow> store \<Rightarrow> unit outcome" where
  "applySeverityLabel e issueNumber sev =
     (let prefix = js ''severity:''; targetLabel = prefix @ js_to_string sev in
      bind (api_list_labels e issueNumber) (\<lambda>lbls.
        (let stale = filter (\<lambda>l. starts_with l prefix \<and> l \<noteq> targetLabel) lbls in
         bind (fold (\<lambda>l m. bind m (\<lambda>_. api_remove_label e issueNumber l)) stale (ret ()))
           (\<lambda>_. if targetLabel \<in> set lbls then ret ()
                 else api_add_labels e issueNumber [targetLabel]))))"

text \<open>The search for merged pull requests that mention the record.\<close>

definition findFixingPR :: "env \<Rightarrow> nat \<Rightarrow> store \<Rightarrow> pull_request list outcome" where
  "findFixingPR e issueNumber =
     bind (api_search_pulls e issueNumber (show_nat issueNumber) 5) (\<lambda>items.
       ret (filter (\<lambda>pr.
              (let b = pr_body pr @ js '' '' @ pr_title pr
               in js_includes b (js ''#'' @ show_nat issueNumber) \<or>
                  js_includes b (js ''issues/'' @ show_nat issueNumber))) items))"

text \<open>
  The body of the loop of \<^verbatim>\<open>autoCloseQuietIssues\<close> for one item: \<open>None\<close> is
  \<^verbatim>\<open>continue\<close>, \<open>Some n\<close> the number pushed on \<^verbatim>\<open>closed\<close>.
\<close>

definition latest :: "int option list \<Rightarrow> int option" where
  "latest timestamps = foldl (\<lambda>a b. if date_gt a b then a else b) (hd timestamps) (tl timestamps)"

fun js_join :: "jstr \<Rightarrow> jstr list \<Rightarrow> jstr" where
  "js_join sep [] = []"
| "js_join sep [x] = x"
| "js_join sep (x # y # ys) = x @ sep @ js_join sep (y # ys)"

definition close_message :: "int option \<Rightarrow> pull_request list \<Rightarrow> jstr" where
  "close_message daysSince fixingPRs =
     js ''Pattern inactive for '' @ show_number daysSince @ js '' days'' @ em_dash @
     js ''closing.'' @
     (if fixingPRs = [] then []
      else nl @ nl @ js ''**Likely fixed by:**'' @ nl @
           js_join nl (map (\<lambda>pr. js ''- #'' @ show_nat (pr_number pr) @ js '' '' @ pr_title pr)
                       fixingPRs))"

definition sweep_item :: "env \<Rightarrow> int \<Rightarrow> issue \<Rightarrow> store \<Rightarrow> nat option outcome" where
  "sweep_item e cutoff item =
     bind (api_get e (number item)) (\<lambda>iss.
       (let timestamps = parseOccurrenceTimestamps e (body iss) in
        if timestamps = [] then ret None
        else
          (let lastSeen = latest timestamps in
           if date_ge lastSeen cutoff then ret None
           else
             (let daysSince = map_option (\<lambda>t. (now e - t) div 86400000) lastSeen in
              bind (findFixingPR e (number item)) (\<lambda>fixingPRs.
              bind (api_create_comment e (number item) (close_message daysSince fixingPRs)) (\<lambda>_.
              bind (api_update e (number item) (\<lambda>i. i\<lparr>state := Closed\<rparr>)) (\<lambda>_.
              ret (Some (number item)))))))))"

fun sweep_loop :: "env \<Rightarrow> int \<Rightarrow> issue list \<Rightarrow> nat list \<Rightarrow> store \<Rightarrow> nat list outcome" where
  "sweep_loop e cutoff [] closed st = ret closed st"
| "sweep_loop e cutoff (item # items) closed st =
     (case sweep_item e cutoff item st of
        (Inl err, st') \<Rightarrow> (Inl err, st')
      | (Inr None, st') \<Rightarrow> sweep_loop e cutoff items closed st'
      | (Inr (Some n), st') \<Rightarrow> sweep_loop e cutoff items (closed @ [n]) st')"

definition autoCloseQuietIssues :: "env \<Rightarrow> jstr \<Rightarrow> int \<Rightarrow> store \<Rightarrow> nat list outcome" where
  "autoCloseQuietIssues e label quietDays =
     (if quietDays \<le> 0 then ret []
      else
        bind (api_search_issues e None label (Some Open) 50) (\<lambda>items.
          sweep_loop e (now e - quietDays * 86400000) items []))"

text \<open>The upsert.\<close>

record occurrence =
  when_ts :: jstr
  runUrl :: jstr
  sourceRepo :: jstr
  explainerContext :: jstr

datatype upsert_kind = Created | Updated | Reopened

record upsert_result =
  kind :: upsert_kind
  issueNumber :: nat
  url :: jstr
  severity :: jsval
  muted :: bool
  totalOccurrences :: nat
  thresholdReached :: bool

definition occurrences_heading_re :: re where
  "occurrences_heading_re = seqs [Bol, Lit (js ''## Occurrences''), rep_star is_space, Eol]"

definition occurrences_insert_re :: re where
  "occurrences_insert_re = seqs [Lit (js ''## Occurrences''), rep_star is_space, Lit nl]"

definition occurrence_tail :: "occurrence \<Rightarrow> jstr" where
  "occurrence_tail occ =
     when_ts occ @ em_dash @ runUrl occ @
     (if sourceRepo occ \<noteq> [] then js '' ('' @ sourceRepo occ @ js '')'' else []) @
     (if explainerContext occ \<noteq> [] then nl @ js ''  > '' @ explainerContext occ else [])"

definition recurrence_comment :: jstr where
  "recurrence_comment =
     js ''**Pattern recurred**'' @ em_dash @
     js ''this issue was previously resolved but the same failure has reappeared. Check the previous closing comment for fix context.''"

text \<open>
  The new body of a found record: the heading is normalised or appended, and the occurrence
  line, with the muted prefix for a muted record, is inserted under it.
\<close>

definition body_with_occurrence :: "bool \<Rightarrow> occurrence \<Rightarrow> jstr \<Rightarrow> jstr" where
  "body_with_occurrence is_muted occ bdy =
     (let updatedBody =
            (if js_includes bdy (js ''## Occurrences'')
             then replace_first flags_m occurrences_heading_re (js ''## Occurrences'') bdy
             else bdy @ (if bdy \<noteq> [] \<and> last bdy = 10 then [] else nl) @ nl @
                  js ''## Occurrences'' @ nl);
          prefixedOccLine =
            (if is_muted then js ''- [muted] '' @ occurrence_tail occ
             else js ''- '' @ occurrence_tail occ)
      in replace_first flags_i occurrences_insert_re
           (js ''## Occurrences'' @ nl @ prefixedOccLine @ nl) updatedBody)"

definition upsert_found ::
  "env \<Rightarrow> issue \<Rightarrow> occurrence \<Rightarrow> jstr \<Rightarrow> nat \<Rightarrow> store \<Rightarrow> upsert_result outcome" where
  "upsert_found e item occ ruleName notifyThreshold =
     (let issueNumber = number item;
          wasClosed = (state item = Closed);
          existingLabels = labels item;
          is_muted = (js ''muted'' \<in> set existingLabels)
      in
      bind (api_get e issueNumber) (\<lambda>iss.
        (let newBody0 = body_with_occurrence is_muted occ (body iss);
             allTimestamps = parseOccurrenceTimestamps e newBody0;
             stats = computeWindowStats allTimestamps (now e);
             newBody = appendStatsLine newBody0 stats;
             sev = classifySeverity ruleName (last7 stats)
         in
         bind (api_update e issueNumber
                 (\<lambda>i. if wasClosed then i\<lparr>body := newBody, state := Open\<rparr>
                      else i\<lparr>body := newBody\<rparr>)) (\<lambda>_.
         bind (if wasClosed then api_create_comment e issueNumber recurrence_comment
               else ret ()) (\<lambda>_.
         bind (applySeverityLabel e issueNumber sev) (\<lambda>_.
           (let total = length allTimestamps in
            bind (if notifyThreshold > 0 \<and> total \<ge> notifyThreshold \<and>
                     js ''threshold-reached'' \<notin> set existingLabels
                  then bind (api_add_labels e issueNumber [js ''threshold-reached''])
                         (\<lambda>_. ret True)
                  else ret False) (\<lambda>reached.
            ret \<lparr>kind = (if wasClosed then Reopened else Updated),
                 issueNumber = issueNumber, url = html_url item, severity = sev,
                 muted = is_muted, totalOccurrences = total,
                 thresholdReached = reached\<rparr>))))))))"

definition upsertIssueForSignature ::
  "env \<Rightarrow> jstr \<Rightarrow> jstr \<Rightarrow> jstr \<Rightarrow> occurrence \<Rightarrow> jstr \<Rightarrow> nat \<Rightarrow> store \<Rightarrow> upsert_result outcome" where
  "upsertIssueForSignature e label sig sigHash occ ruleName notifyThreshold =
     bind (api_search_issues e (Some sigHash) label None 10) (\<lambda>found0.
     bind (if found0 = []
           then bind (api_search_issues e (Some sigHash) label (Some Closed) 10)
                  (\<lambda>closedFound. ret (if closedFound \<noteq> [] then closedFound else found0))
           else ret found0) (\<lambda>found.
       (case found of
          item # _ \<Rightarrow> upsert_found e item occ ruleName notifyThreshold
        | [] \<Rightarrow>
            (let ttl = js ''[CI Pattern '' @ take 8 sigHash @ js ''] '' @ take 120 sig;
                 header = ISSUE_MARKER @ nl @ nl @ js ''**Signature:**'' @ nl @ js ''```'' @ nl @
                          sig @ nl @ js ''```'' @ nl @ nl;
                 sev = classifySeverity ruleName 0;
                 bdy = header @ js ''## Occurrences'' @ nl @ js ''- '' @ occurrence_tail occ @ nl
             in
             bind (api_create e ttl bdy [label, js ''severity:'' @ js_to_string sev]) (\<lambda>created.
               ret \<lparr>kind = Created, issueNumber = number created, url = html_url created,
                    severity = sev, muted = False, totalOccurrences = 1,
                    thresholdReached = False\<rparr>)))))"

section \<open>Example stores\<close>

text \<open>
  The signature of the specification's ESLint example with its SHA-1 digest, a clock at
  2026-11-03T00:00:00Z, and a date parser that knows the timestamps of the examples.
\<close>

definition ex_sig :: jstr where
  "ex_sig = js ''ESLint: src/a.ts:<line>:<col> error Foo''"

definition ex_hash :: jstr where
  "ex_hash = js ''25c1c4318cbb04896abb47c397e0a0f331d43842''"

definition ex_dates :: "(jstr \<times> int) list" where
  "ex_dates =
     [(js ''2026-11-01T00:00:00.000Z'', 1793491200000),
      (js ''2026-11-02T00:00:00.000Z'', 1793577600000),
      (js ''2026-11-02T12:00:00.000Z'', 1793620800000),
      (js ''2026-10-01T00:00:00.000Z'', 1790812800000),
      (js ''2026-10-03T00:00:00.000Z'', 1790985600000)]"

definition ex_env :: env where
  "ex_env = \<lparr>faulty = (\<lambda>c. False), now = 1793664000000, parse_date = map_of ex_dates,
             url_of = (\<lambda>n. js ''https://github.com/o/r/issues/'' @ show_nat n)\<rparr>"

definition ex_occ :: "jstr \<Rightarrow> occurrence" where
  "ex_occ t = \<lparr>when_ts = t, runUrl = js ''https://github.com/o/r/actions/runs/7'',
              sourceRepo = [], explainerContext = []\<rparr>"

definition empty_store :: store where
  "empty_store = \<lparr>issues = [], pulls = []\<rparr>"

definition ex_label :: jstr where
  "ex_label = js ''ci-failure-pattern''"

text \<open>A record whose title carries the whole fingerprint, with one occurrence in its log.\<close>

definition ex_body :: jstr where
  "ex_body = js ''sig'' @ nl @ nl @ js ''## Occurrences'' @ nl @
             js ''- 2026-11-01T00:00:00.000Z'' @ em_dash @ js ''run'' @ nl"

definition ex_record :: "issue_state \<Rightarrow> jstr list \<Rightarrow> issue" where
  "ex_record s ls =
     \<lparr>number = 1, title = js ''[CI Pattern '' @ ex_hash @ js ''] ESLint'', body = ex_body,
      state = s, labels = ex_label # ls, comments = [],
      html_url = js ''https://github.com/o/r/issues/1''\<rparr>"

definition ex_store :: "issue_state \<Rightarrow> jstr list \<Rightarrow> store" where
  "ex_store s ls = \<lparr>issues = [ex_record s ls], pulls = []\<rparr>"

text \<open>
  Two open records whose last occurrence is 33 days before the clock, and an environment
  in which reading the first of them fails.
\<close>

definition stale_record :: "nat \<Rightarrow> issue" where
  "stale_record n =
     \<lparr>number = n, title = js ''[CI Pattern 25c1c431] ESLint'',
      body = js ''## Occurrences'' @ nl @ js ''- 2026-10-01T00:00:00.000Z'' @ em_dash @
             js ''run'' @ nl,
      state = Open, labels = [ex_label], comments = [],
      html_url = js ''https://github.com/o/r/issues/'' @ show_nat n\<rparr>"

definition stale_store :: store where
  "stale_store = \<lparr>issues = [stale_record 1, stale_record 2], pulls = []\<rparr>"

definition failing_env :: env where
  "failing_env = ex_env\<lparr>faulty := (\<lambda>c. c = IssuesGet 1)\<rparr>"

text \<open>
  Three such records, an environment in which closing the second of them fails, and the
  record as the sweep leaves it after its comment and after closing it.
\<close>

definition stale_batch :: store where
  "stale_batch = \<lparr>issues = [stale_record 1, stale_record 2, stale_record 3], pulls = []\<rparr>"

definition failing_update_env :: env where
  "failing_update_env = ex_env\<lparr>faulty := (\<lambda>c. c = IssuesUpdate 2)\<rparr>"

definition commented_record :: "nat \<Rightarrow> issue" where
  "commented_record n = (stale_record n)\<lparr>comments := [close_message (Some 33) []]\<rparr>"

definition closed_record :: "nat \<Rightarrow> issue" where
  "closed_record n = (commented_record n)\<lparr>state := Closed\<rparr>"

text \<open>The records a request on record \<open>n\<close> leaves alone.\<close>

definition unchanged_except :: "nat \<Rightarrow> store \<Rightarrow> store \<Rightarrow> bool" where
  "unchanged_except n st st' =
     (filter (\<lambda>i. number i \<noteq> n) (issues st') = filter (\<lambda>i. number i \<noteq> n) (issues st) \<and>
      pulls st' = pulls st)"

text \<open>An environment in which no request fails.\<close>

definition healthy :: "env \<Rightarrow> bool" where
  "healthy e = (\<forall>c. \<not> faulty e c)"

text \<open>The records a search for a fingerprint under the tracking label selects.\<close>

definition carries :: "jstr \<Rightarrow> jstr \<Rightarrow> issue \<Rightarrow> bool" where
  "carries sigHash label i = (js_includes (title i) sigHash \<and> label \<in> set (labels i))"

text \<open>Every record that is closed afterwards was closed before.\<close>

definition closes_nothing :: "store \<Rightarrow> store \<Rightarrow> bool" where
  "closes_nothing st st' =
     (\<forall>i' \<in> set (issues st'). state i' = Closed \<longrightarrow>
        (\<exists>i \<in> set (issues st). number i = number i' \<and> state i = Closed))"

text \<open>
  What the update path does to the record it finds: the identity and the title stay, a
  closed record is opened and gets the recurrence comment, and labels other than severity
  labels stay.
\<close>

definition update_effect :: "bool \<Rightarrow> (issue \<Rightarrow> issue) \<Rightarrow> bool" where
  "update_effect wasClosed F =
     (\<forall>x. number (F x) = number x \<and> title (F x) = title x \<and>
          state (F x) = (if wasClosed then Open else state x) \<and>
          comments (F x) = comments x @ (if wasClosed then [recurrence_comment] else []) \<and>
          (\<forall>l \<in> set (labels x). \<not> starts_with l (js ''severity:'') \<longrightarrow> l \<in> set (labels (F x))))"

definition labels_only :: "(issue \<Rightarrow> issue) \<Rightarrow> bool" where
  "labels_only f =
     (\<forall>x. number (f x) = number x \<and> title (f x) = title x \<and> state (f x) = state x \<and>
          comments (f x) = comments x \<and> body (f x) = body x \<and>
          (\<forall>l \<in> set (labels x). \<not> starts_with l (js ''severity:'') \<longrightarrow> l \<in> set (labels (f x))))"

text \<open>An upsert of the example signature under its SHA-1 fingerprint.\<close>

definition ex_upsert :: "nat \<Rightarrow> jstr \<Rightarrow> store \<Rightarrow> upsert_result outcome" where
  "ex_upsert nt t =
     upsertIssueForSignature ex_env ex_label ex_sig ex_hash (ex_occ t) (js ''ESLint'') nt"

definition created_result :: "nat \<Rightarrow> upsert_result" where
  "created_result n =
     \<lparr>kind = Created, issueNumber = n, url = js ''https://github.com/o/r/issues/'' @ show_nat n,
      severity = JStr (js ''low''), muted = False, totalOccurrences = 1,
      thresholdReached = False\<rparr>"

text \<open>
  The record the upsert creates for the example signature with an occurrence at \<open>t\<close>, and
  that record after the sweep has closed it 33 days later.
\<close>

definition created_record :: "nat \<Rightarrow> jstr \<Rightarrow> issue" where
  "created_record n t =
     \<lparr>number = n, title = js ''[CI Pattern 25c1c431] '' @ ex_sig,
      body = ISSUE_MARKER @ nl @ nl @ js ''**Signature:**'' @ nl @ js ''```'' @ nl @ ex_sig @ nl @
             js ''```'' @ nl @ nl @ js ''## Occurrences'' @ nl @ js ''- '' @ t @ em_dash @
             js ''https://github.com/o/r/actions/runs/7'' @ nl,
      state = Open, labels = [ex_label, js ''severity:low''], comments = [],
      html_url = js ''https://github.com/o/r/issues/'' @ show_nat n\<rparr>"

definition swept_record :: "nat \<Rightarrow> jstr \<Rightarrow> issue" where
  "swept_record n t =
     (created_record n t)\<lparr>state := Closed, comments := [close_message (Some 33) []]\<rparr>"

section \<open>Shapes of texts, for the occurrence log\<close>

text \<open>
  A pattern that consumes no line terminator: its literals have none and its classes admit
  none.
\<close>

fun lt_free :: "re \<Rightarrow> bool" where
  "lt_free (Lit w) = list_all (\<lambda>c. \<not> is_line_terminator c) w"
| "lt_free (Cls P) = (\<not> P 10 \<and> \<not> P 13 \<and> \<not> P 8232 \<and> \<not> P 8233)"
| "lt_free (Rep P lo hi) = (\<not> P 10 \<and> \<not> P 13 \<and> \<not> P 8232 \<and> \<not> P 8233)"
| "lt_free (Seq a b) = (lt_free a \<and> lt_free b)"
| "lt_free (Alt a b) = (lt_free a \<and> lt_free b)"
| "lt_free (Opt a) = lt_free a"
| "lt_free Bol = True"
| "lt_free Eol = True"
| "lt_free WordB = True"

text \<open>A position at the start of a line, given the character before it.\<close>

definition line_start :: "nat option \<Rightarrow> bool" where
  "line_start p = (case p of None \<Rightarrow> True | Some c \<Rightarrow> is_line_terminator c)"

text \<open>A text in which no line starts with a hyphen.\<close>

fun no_bullet_start :: "nat option \<Rightarrow> jstr \<Rightarrow> bool" where
  "no_bullet_start p [] = True"
| "no_bullet_start p (c # cs) = (\<not> (line_start p \<and> c = 45) \<and> no_bullet_start (Some c) cs)"

text \<open>
  The 24 characters of \<^verbatim>\<open>Date.prototype.toISOString\<close>:
  \<^verbatim>\<open>YYYY-MM-DDTHH:mm:ss.sssZ\<close>.
\<close>

definition iso_format :: "(nat \<Rightarrow> bool) list" where
  "iso_format =
     [is_digit, is_digit, is_digit, is_digit, (\<lambda>c. c = 45), is_digit, is_digit,
      (\<lambda>c. c = 45), is_digit, is_digit, (\<lambda>c. c = 84), is_digit, is_digit,
      (\<lambda>c. c = 58), is_digit, is_digit, (\<lambda>c. c = 58), is_digit, is_digit,
      (\<lambda>c. c = 46), is_digit, is_digit, is_digit, (\<lambda>c. c = 90)]"

definition timestamp_shape :: "jstr \<Rightarrow> bool" where
  "timestamp_shape w = list_all2 (\<lambda>P c. P c) iso_format w"

text \<open>A field of an occurrence on one line and without a dollar sign.\<close>

definition plain_field :: "jstr \<Rightarrow> bool" where
  "plain_field s = list_all (\<lambda>c. c \<noteq> 36 \<and> \<not> is_line_terminator c) s"

definition plain_occurrence :: "occurrence \<Rightarrow> bool" where
  "plain_occurrence occ =
     (timestamp_shape (when_ts occ) \<and> plain_field (runUrl occ) \<and>
      plain_field (sourceRepo occ) \<and> plain_field (explainerContext occ))"




text \<open>
  The line an upsert writes for an occurrence, with the muted prefix for a muted record, and
  the part of it after the timestamp.
\<close>

definition occurrence_line :: "bool \<Rightarrow> occurrence \<Rightarrow> jstr" where
  "occurrence_line is_muted occ =
     (if is_muted then js ''- [muted] '' else js ''- '') @ occurrence_tail occ"

definition occurrence_rest :: "occurrence \<Rightarrow> jstr" where
  "occurrence_rest occ =
     em_dash @ runUrl occ @
     (if sourceRepo occ \<noteq> [] then js '' ('' @ sourceRepo occ @ js '')'' else []) @
     (if explainerContext occ \<noteq> [] then nl @ js ''  > '' @ explainerContext occ else [])"





section \<open>Properties of the severity classification\<close>

lemma js_inj: "js a = js b \<longleftrightarrow> a = b"
proof -
  have "inj (of_char :: char \<Rightarrow> nat)"
    by (rule inj_of_char)
  then show ?thesis
    unfolding js_def by (simp add: inj_map_eq_map)
qed

text \<open>
  On every category that is not a member name of \<^verbatim>\<open>Object.prototype\<close> the function is
  the table of the documentation: escalation at five, the base severity below.
\<close>

lemma keys_distinct_from_table: "k \<in> set object_prototype_keys \<Longrightarrow> map_of BASE_SEVERITY k = None"
  by (auto simp: object_prototype_keys_def BASE_SEVERITY_def js_def)

lemma classifySeverity_high: "5 \<le> n \<Longrightarrow> classifySeverity c n = JStr (js ''high'')"
  by (simp add: classifySeverity_def)

lemma classifySeverity_base:
  assumes "n < 5" and "c \<notin> set object_prototype_keys"
  shows "classifySeverity c n =
     JStr (if c \<in> {js ''Build'', js ''npm'', js ''Docker'', js ''Node''} then js ''high''
           else if c \<in> {js ''TypeScript'', js ''Jest/Vitest''} then js ''medium''
           else js ''low'')"
  using assms
  by (simp add: classifySeverity_def obj_get_def js_or_def BASE_SEVERITY_def js_inj)
    (simp add: js_def)

text \<open>
  Claim C6. The severity of a category and a recent 7-day count \<open>n\<close> is high whenever
  \<open>n \<ge> 5\<close>, and otherwise the base severity of the category, low for every category
  the table does not list. The table is an object literal read with
  \<^verbatim>\<open>BASE_SEVERITY[ruleName] || "low"\<close>, and such a read also finds the members of
  \<^verbatim>\<open>Object.prototype\<close>: for the category \<^verbatim>\<open>constructor\<close> (the name of a custom
  rule) and a count of 0 the function returns the inherited member, not the string low.
\<close>

theorem classifySeverity_inherited_key:
  "classifySeverity (js ''constructor'') 0 = JProto (js ''constructor'') \<and>
   classifySeverity (js ''constructor'') 0 \<noteq> JStr (js ''low'')"
  by (simp add: classifySeverity_def obj_get_def js_or_def BASE_SEVERITY_def object_prototype_keys_def js_def)

lemma classifySeverity_ESLint_example:
  "classifySeverity (js ''ESLint'') 5 = JStr (js ''high'') \<and> classifySeverity (js ''ESLint'') 1 = JStr (js ''low'')"
  by (simp add: classifySeverity_def obj_get_def js_or_def BASE_SEVERITY_def object_prototype_keys_def js_def)

section \<open>Properties of the step lookup\<close>

lemma sar1_small: "0 \<le> n \<Longrightarrow> n < 2 ^ 31 \<Longrightarrow> sar1 n = n div 2"
  by (simp add: sar1_def to_int32_def)

text \<open>
  The loop invariant of the binary search: everything left of \<open>lo\<close> is at or before the
  query, everything right of \<open>hi\<close> is after it. On arrays shorter than \<open>2 ^ 30\<close> the
  shift is a division by two, the loop returns, and \<open>hi\<close> is then the index of the last
  boundary at or before the query (or \<open>-1\<close>).
\<close>

lemma bsearch_loop_sorted:
  assumes srt: "sorted (map idx ss)" and len: "int (length ss) < 2 ^ 30"
  shows "0 \<le> lo \<Longrightarrow> hi < int (length ss) \<Longrightarrow> lo \<le> hi + 1 \<Longrightarrow>
     (\<forall>j. 0 \<le> j \<and> j < lo \<longrightarrow> idx (ss ! nat j) \<le> q) \<Longrightarrow>
     (\<forall>j. hi < j \<and> j < int (length ss) \<longrightarrow> q < idx (ss ! nat j)) \<Longrightarrow>
     \<exists>h. bsearch_loop ss q lo hi = Some (Inr h) \<and> -1 \<le> h \<and> h < int (length ss) \<and>
         (\<forall>j. 0 \<le> j \<and> j \<le> h \<longrightarrow> idx (ss ! nat j) \<le> q) \<and>
         (\<forall>j. h < j \<and> j < int (length ss) \<longrightarrow> q < idx (ss ! nat j))"
proof (induction "nat (hi + 1 - lo)" arbitrary: lo hi rule: less_induct)
  case less
  show ?case
  proof (cases "lo \<le> hi")
    case False
    then have "lo = hi + 1" using less.prems by simp
    then show ?thesis
      using less.prems False by (subst bsearch_loop.simps) auto
  next
    case True
    define mid where "mid = (lo + hi) div 2"
    have sm: "sar1 (lo + hi) = mid"
      unfolding mid_def using less.prems len True by (intro sar1_small) auto
    have mid_rng: "lo \<le> mid" "mid \<le> hi"
      unfolding mid_def using True by auto
    then have mid_ok: "0 \<le> mid" "mid < int (length ss)"
      using less.prems by auto
    show ?thesis
    proof (cases "idx (ss ! nat mid) \<le> q")
      case le: True
      have below: "\<forall>j. 0 \<le> j \<and> j < mid + 1 \<longrightarrow> idx (ss ! nat j) \<le> q"
      proof (intro allI impI)
        fix j assume j: "0 \<le> j \<and> j < mid + 1"
        then have "nat j \<le> nat mid" "nat mid < length ss" using mid_ok by auto
        then have "idx (ss ! nat j) \<le> idx (ss ! nat mid)"
          using srt by (simp add: sorted_iff_nth_mono)
        then show "idx (ss ! nat j) \<le> q" using le by simp
      qed
      have "\<exists>h. bsearch_loop ss q (mid + 1) hi = Some (Inr h) \<and> -1 \<le> h \<and> h < int (length ss) \<and>
         (\<forall>j. 0 \<le> j \<and> j \<le> h \<longrightarrow> idx (ss ! nat j) \<le> q) \<and>
         (\<forall>j. h < j \<and> j < int (length ss) \<longrightarrow> q < idx (ss ! nat j))"
        using less.prems mid_rng mid_ok below
        by (intro less.hyps) auto
      moreover have "bsearch_loop ss q lo hi = bsearch_loop ss q (mid + 1) hi"
        using True sm mid_ok le by (subst bsearch_loop.simps) simp
      ultimately show ?thesis by simp
    next
      case gt: False
      have above: "\<forall>j. mid - 1 < j \<and> j < int (length ss) \<longrightarrow> q < idx (ss ! nat j)"
      proof (intro allI impI)
        fix j assume j: "mid - 1 < j \<and> j < int (length ss)"
        then have "nat mid \<le> nat j" "nat j < length ss" using mid_ok by auto
        then have "idx (ss ! nat mid) \<le> idx (ss ! nat j)"
          using srt by (simp add: sorted_iff_nth_mono)
        then show "q < idx (ss ! nat j)" using gt by simp
      qed
      have "\<exists>h. bsearch_loop ss q lo (mid - 1) = Some (Inr h) \<and> -1 \<le> h \<and> h < int (length ss) \<and>
         (\<forall>j. 0 \<le> j \<and> j \<le> h \<longrightarrow> idx (ss ! nat j) \<le> q) \<and>
         (\<forall>j. h < j \<and> j < int (length ss) \<longrightarrow> q < idx (ss ! nat j))"
        using less.prems mid_rng mid_ok above
        by (intro less.hyps) auto
      moreover have "bsearch_loop ss q lo hi = bsearch_loop ss q lo (mid - 1)"
        using True sm mid_ok gt by (subst bsearch_loop.simps) simp
      ultimately show ?thesis by simp
    qed
  qed
qed

lemma filter_prefix:
  "n \<le> length xs \<Longrightarrow> (\<forall>j<n. P (xs ! j)) \<Longrightarrow> (\<forall>j. n \<le> j \<and> j < length xs \<longrightarrow> \<not> P (xs ! j)) \<Longrightarrow>
   filter P xs = take n xs"
proof (induction xs arbitrary: n)
  case Nil
  then show ?case by simp
next
  case (Cons x xs)
  show ?case
  proof (cases n)
    case 0
    then have "\<forall>y \<in> set (x # xs). \<not> P y"
      using Cons.prems(3) by (metis in_set_conv_nth le0)
    then show ?thesis using 0 by (simp add: filter_empty_conv)
  next
    case (Suc m)
    have "filter P xs = take m xs"
    proof (rule Cons.IH)
      show "m \<le> length xs" using Cons.prems(1) Suc by simp
      show "\<forall>j<m. P (xs ! j)" using Cons.prems(2) Suc by auto
      show "\<forall>j. m \<le> j \<and> j < length xs \<longrightarrow> \<not> P (xs ! j)"
        using Cons.prems(3) Suc by auto
    qed
    moreover have "P x" using Cons.prems(2) Suc by auto
    ultimately show ?thesis using Suc by simp
  qed
qed

text \<open>
  Claim C2, as amended. For every boundary list in non-decreasing \<open>idx\<close> order (shorter
  than \<open>2 ^ 30\<close>) and every query index, the lookup returns the name of the last boundary
  whose index is at or before the query; on the empty list it returns the sentinel
  \<^verbatim>\<open>Unknown step\<close>; for a query strictly before the first boundary it returns the name of
  the first boundary (the index \<open>hi = -1\<close> is clamped to 0).
\<close>

theorem findStepForLineIndex_sorted:
  assumes srt: "sorted (map idx ss)" and len: "int (length ss) < 2 ^ 30"
  shows "findStepForLineIndex ss q =
     Some (Inr (if ss = [] then js ''Unknown step''
                else if \<exists>b \<in> set ss. idx b \<le> q
                     then name (last (filter (\<lambda>b. idx b \<le> q) ss))
                     else name (hd ss)))"
proof (cases "ss = []")
  case True
  then show ?thesis by (simp add: findStepForLineIndex_def)
next
  case False
  then have pos: "0 < length ss" by simp
  obtain h where h: "bsearch_loop ss q 0 (int (length ss) - 1) = Some (Inr h)"
      "-1 \<le> h" "h < int (length ss)"
      "\<forall>j. 0 \<le> j \<and> j \<le> h \<longrightarrow> idx (ss ! nat j) \<le> q"
      "\<forall>j. h < j \<and> j < int (length ss) \<longrightarrow> q < idx (ss ! nat j)"
    using bsearch_loop_sorted [OF srt len, of 0 "int (length ss) - 1" q] by auto
  have flt: "filter (\<lambda>b. idx b \<le> q) ss = take (nat (h + 1)) ss"
  proof (rule filter_prefix)
    show "nat (h + 1) \<le> length ss" using h(3) by simp
    show "\<forall>j<nat (h + 1). idx (ss ! j) \<le> q"
    proof (intro allI impI)
      fix j assume "j < nat (h + 1)"
      then have "0 \<le> int j \<and> int j \<le> h" by auto
      then have "idx (ss ! nat (int j)) \<le> q" using h(4) by blast
      then show "idx (ss ! j) \<le> q" by simp
    qed
    show "\<forall>j. nat (h + 1) \<le> j \<and> j < length ss \<longrightarrow> \<not> idx (ss ! j) \<le> q"
    proof (intro allI impI)
      fix j assume "nat (h + 1) \<le> j \<and> j < length ss"
      then have "h < int j \<and> int j < int (length ss)" by auto
      then have "q < idx (ss ! nat (int j))" using h(5) by blast
      then show "\<not> idx (ss ! j) \<le> q" by simp
    qed
  qed
  show ?thesis
  proof (cases "h = -1")
    case True
    then have "filter (\<lambda>b. idx b \<le> q) ss = []" using flt by simp
    then have none: "\<not> (\<exists>b \<in> set ss. idx b \<le> q)"
      by (simp add: filter_empty_conv)
    have "findStepForLineIndex ss q = Some (Inr (name (ss ! 0)))"
      using False h(1) True pos by (simp add: findStepForLineIndex_def)
    then show ?thesis using False none by (simp add: hd_conv_nth)
  next
    case hn: False
    then have h0: "0 \<le> h" using h(2) by simp
    have ne: "take (nat (h + 1)) ss \<noteq> []" using h0 False by simp
    have "last (take (nat (h + 1)) ss) = ss ! nat h"
    proof -
      have "nat h < length ss" using h0 h(3) by simp
      then have "take (nat (h + 1)) ss = take (nat h) ss @ [ss ! nat h]"
        using h0 by (simp add: nat_add_distrib take_Suc_conv_app_nth)
      then show ?thesis by simp
    qed
    moreover have "\<exists>b \<in> set ss. idx b \<le> q"
    proof -
      have "filter (\<lambda>b. idx b \<le> q) ss \<noteq> []" using flt ne by simp
      then show ?thesis by (simp add: filter_empty_conv)
    qed
    moreover have "findStepForLineIndex ss q = Some (Inr (name (ss ! nat h)))"
      using False h(1) h0 h(3) by (simp add: findStepForLineIndex_def max_def)
    ultimately show ?thesis using False flt by simp
  qed
qed

theorem findStepForLineIndex_sorted_witness:
  "sorted (map idx ex_steps) \<and> int (length ex_steps) < 2 ^ 30 \<and>
   findStepForLineIndex ex_steps 15 = Some (Inr (js ''B''))"
  using findStepForLineIndex_sorted [of ex_steps 15]
  by (simp add: ex_steps_def)

text \<open>
  Claim C2 as stated fails: one boundary at line 3, query at line 1. The query is before the
  first boundary and the result is that boundary's name, not the sentinel.
\<close>

theorem findStepForLineIndex_before_first:
  "findStepForLineIndex [\<lparr>idx = 3, name = js ''A''\<rparr>] 1 = Some (Inr (js ''A'')) \<and>
   findStepForLineIndex [\<lparr>idx = 3, name = js ''A''\<rparr>] 1 \<noteq> Some (Inr (js ''Unknown step''))"
  by (simp add: findStepForLineIndex_def bsearch_loop.simps sar1_def to_int32_def js_def)

section \<open>Properties of the pattern matcher\<close>

lemma lit_match_iff:
  "lit_match fl w s \<longleftrightarrow>
     (\<exists>m post. s = m @ post \<and> list_all2 (\<lambda>a c. cmatch fl (\<lambda>x. x = a) c) w m)"
proof (induction fl w s rule: lit_match.induct)
  case (1 fl s)
  then show ?case by simp
next
  case (2 fl a w)
  then show ?case by (simp add: list_all2_Cons1)
next
  case (3 fl a w c s)
  show ?case
  proof
    assume "lit_match fl (a # w) (c # s)"
    then have h: "cmatch fl (\<lambda>x. x = a) c" "lit_match fl w s" by simp_all
    then obtain m post where "s = m @ post" "list_all2 (\<lambda>a c. cmatch fl (\<lambda>x. x = a) c) w m"
      using 3 by blast
    then have "c # s = (c # m) @ post \<and> list_all2 (\<lambda>a c. cmatch fl (\<lambda>x. x = a) c) (a # w) (c # m)"
      using h by simp
    then show "\<exists>m post. c # s = m @ post \<and> list_all2 (\<lambda>a c. cmatch fl (\<lambda>x. x = a) c) (a # w) m"
      by blast
  next
    assume "\<exists>m post. c # s = m @ post \<and> list_all2 (\<lambda>a c. cmatch fl (\<lambda>x. x = a) c) (a # w) m"
    then obtain m post where mp: "c # s = m @ post" "list_all2 (\<lambda>a c. cmatch fl (\<lambda>x. x = a) c) (a # w) m"
      by blast
    then obtain c' m' where m: "m = c' # m'" "cmatch fl (\<lambda>x. x = a) c'"
        "list_all2 (\<lambda>a c. cmatch fl (\<lambda>x. x = a) c) w m'"
      by (auto simp: list_all2_Cons1)
    then have "c' = c" "s = m' @ post" using mp by simp_all
    then show "lit_match fl (a # w) (c # s)" using m 3 by auto
  qed
qed

lemma lit_match_ci:
  "lit_match flags_i w s \<longleftrightarrow> (\<exists>m post. s = m @ post \<and> ci_eq w m)"
  by (simp add: lit_match_iff ci_eq_def cmatch_def flags_i_def)

lemma re_search_None:
  "re_search fl r p s = None \<longleftrightarrow>
     (\<forall>pre post. s = pre @ post \<longrightarrow>
        rmatch fl r (if pre = [] then p else Some (last pre)) post = [])"
proof (induction s arbitrary: p)
  case Nil
  then show ?case by (simp split: list.splits)
next
  case (Cons c cs)
  show ?case
  proof
    assume a: "re_search fl r p (c # cs) = None"
    then have h0: "rmatch fl r p (c # cs) = []" by (simp split: list.splits)
    then have "re_search fl r (Some c) cs = None" using a by simp
    then have h1: "\<forall>pre post. cs = pre @ post \<longrightarrow>
        rmatch fl r (if pre = [] then Some c else Some (last pre)) post = []"
      using Cons.IH by blast
    show "\<forall>pre post. c # cs = pre @ post \<longrightarrow>
        rmatch fl r (if pre = [] then p else Some (last pre)) post = []"
    proof (intro allI impI)
      fix pre post assume e: "c # cs = pre @ post"
      show "rmatch fl r (if pre = [] then p else Some (last pre)) post = []"
      proof (cases pre)
        case Nil
        then show ?thesis using e h0 by simp
      next
        case (Cons d pre')
        then have "cs = pre' @ post" "d = c" using e by simp_all
        then have "rmatch fl r (if pre' = [] then Some c else Some (last pre')) post = []"
          using h1 by blast
        then show ?thesis using Cons \<open>d = c\<close> by (auto split: if_splits)
      qed
    qed
  next
    assume a: "\<forall>pre post. c # cs = pre @ post \<longrightarrow>
        rmatch fl r (if pre = [] then p else Some (last pre)) post = []"
    then have h0: "rmatch fl r p (c # cs) = []" by (metis append_Nil)
    have "\<forall>pre post. cs = pre @ post \<longrightarrow>
        rmatch fl r (if pre = [] then Some c else Some (last pre)) post = []"
    proof (intro allI impI)
      fix pre post assume e: "cs = pre @ post"
      then have "c # cs = (c # pre) @ post" by simp
      then have "rmatch fl r (if c # pre = [] then p else Some (last (c # pre))) post = []"
        using a by blast
      then show "rmatch fl r (if pre = [] then Some c else Some (last pre)) post = []"
        by (auto split: if_splits)
    qed
    then have "re_search fl r (Some c) cs = None" using Cons.IH by blast
    then show "re_search fl r p (c # cs) = None" using h0 by simp
  qed
qed

lemma re_test_iff:
  "re_test fl r s \<longleftrightarrow>
     (\<exists>pre post. s = pre @ post \<and>
        rmatch fl r (if pre = [] then None else Some (last pre)) post \<noteq> [])"
  unfolding re_test_def re_search_None by blast

lemma lit_match_append:
  "lit_match fl (u @ v) s \<longleftrightarrow> lit_match fl u s \<and> lit_match fl v (drop (length u) s)"
proof (induction fl u s rule: lit_match.induct)
  case (1 fl s)
  then show ?case by simp
next
  case (2 fl a w)
  then show ?case by simp
next
  case (3 fl a w c s)
  then show ?case by auto
qed

lemma js_append: "js (a @ b) = js a @ js b"
  by (simp add: js_def)

lemma length_js: "length (js a) = length a"
  by (simp add: js_def)

lemma rmatch_Seq_Lit:
  "rmatch fl (Seq (Lit w) r) p s \<noteq> [] \<longleftrightarrow>
     lit_match fl w s \<and> rmatch fl r (prev_after p s (length w)) (drop (length w) s) \<noteq> []"
  by simp

lemma rmatch_Alt_ne:
  "rmatch fl (Alt a b) p s \<noteq> [] \<longleftrightarrow> rmatch fl a p s \<noteq> [] \<or> rmatch fl b p s \<noteq> []"
  by simp

lemma rmatch_Lit_ne: "rmatch fl (Lit w) p s \<noteq> [] \<longleftrightarrow> lit_match fl w s"
  by simp

lemma rmatch_annotation:
  "rmatch flags_i annotation_re p s \<noteq> [] \<longleftrightarrow>
     lit_match flags_i (js ''##[group]'') s \<or> lit_match flags_i (js ''##[endgroup]'') s \<or>
     lit_match flags_i (js ''##[debug]'') s \<or> lit_match flags_i (js ''##[notice]'') s"
proof -
  have e: "js ''##[group]'' = js ''##['' @ js ''group'' @ js '']''"
     "js ''##[endgroup]'' = js ''##['' @ js ''endgroup'' @ js '']''"
     "js ''##[debug]'' = js ''##['' @ js ''debug'' @ js '']''"
     "js ''##[notice]'' = js ''##['' @ js ''notice'' @ js '']''"
    by (simp_all add: js_def)
  show ?thesis
    unfolding e lit_match_append annotation_re_def seqs.simps alts.simps
      rmatch_Seq_Lit rmatch_Alt_ne
    apply (simp only: rmatch.simps)
    apply (auto simp: length_js split: if_splits)
    done
qed

section \<open>Properties of the error detection\<close>

text \<open>The fallback scan is the scan of the specification.\<close>

lemma re_test_annotation: "re_test flags_i annotation_re l \<longleftrightarrow> annotation_line l"
proof -
  have t: "\<And>w. has_token w l \<longleftrightarrow> (\<exists>pre post. l = pre @ post \<and> lit_match flags_i w post)"
    unfolding has_token_def lit_match_ci by blast
  show ?thesis
    unfolding re_test_iff rmatch_annotation annotation_line_def t by blast
qed

lemma ci_eq_word_ends:
  assumes "ci_eq w m" and "w \<noteq> []" and "is_word (hd w)" and "is_word (last w)"
  shows "m \<noteq> [] \<and> is_word (hd m) \<and> is_word (last m)"
proof -
  have len: "length w = length m"
    using assms(1) by (simp add: ci_eq_def list_all2_lengthD)
  then have ne: "m \<noteq> []" using assms(2) by auto
  have tw: "\<And>a c. (c = a \<or> toggle_case c = a) \<Longrightarrow> is_word a \<Longrightarrow> is_word c"
    by (auto simp: toggle_case_def is_word_def is_upper_def is_lower_def is_digit_def split: if_splits)
  have "hd m = hd w \<or> toggle_case (hd m) = hd w"
    using assms(1,2) ne by (cases w; cases m) (auto simp: ci_eq_def)
  then have h: "is_word (hd m)" using tw assms(3) by blast
  have "last m = last w \<or> toggle_case (last m) = last w"
  proof -
    have "length w - 1 < length w" using assms(2) by (cases w) auto
    then have "m ! (length w - 1) = w ! (length w - 1) \<or> toggle_case (m ! (length w - 1)) = w ! (length w - 1)"
      using assms(1) unfolding ci_eq_def by (auto dest: list_all2_nthD)
    then show ?thesis using len ne assms(2) by (simp add: last_conv_nth)
  qed
  then have "is_word (last m)" using tw assms(4) by blast
  then show ?thesis using ne h by simp
qed

lemma rmatch_word_bounded:
  assumes w: "w \<noteq> []" "is_word (hd w)" "is_word (last w)"
  shows "rmatch flags_i (seqs [WordB, Lit w, WordB]) p s \<noteq> [] \<longleftrightarrow>
     (\<exists>m post. s = m @ post \<and> ci_eq w m \<and>
        (case p of None \<Rightarrow> True | Some c \<Rightarrow> \<not> is_word c) \<and>
        (post = [] \<or> \<not> is_word (hd post)))"
proof
  assume a: "rmatch flags_i (seqs [WordB, Lit w, WordB]) p s \<noteq> []"
  then have b0: "rmatch flags_i WordB p s \<noteq> []"
    by (auto simp: prev_after_def split: if_splits)
  then have b1: "rmatch flags_i WordB p s = [0]"
    by (simp add: Let_def split: if_splits)
  then have lm: "lit_match flags_i w s" using a
    by (auto simp: prev_after_def split: if_splits)
  then obtain m post where mp: "s = m @ post" "ci_eq w m"
    using lit_match_ci by blast
  then have len: "length m = length w" by (simp add: ci_eq_def list_all2_lengthD)
  have me: "m \<noteq> []" "is_word (hd m)" "is_word (last m)"
    using ci_eq_word_ends [OF mp(2) w] by simp_all
  have hs: "(case s of [] \<Rightarrow> False | c # _ \<Rightarrow> is_word c)"
    using me mp(1) by (cases m) auto
  have pc: "(case p of None \<Rightarrow> True | Some c \<Rightarrow> \<not> is_word c)"
    using b0 hs by (auto simp: Let_def split: if_splits option.splits)
  have b2: "rmatch flags_i WordB (Some (s ! (length w - 1))) (drop (length w) s) \<noteq> []"
    using a b1 lm w(1) by (auto simp: prev_after_def split: if_splits)
  have lt: "length w - 1 < length m" using len me(1) by (cases m) auto
  have "s ! (length w - 1) = last m"
    using mp(1) len me(1) lt by (simp add: nth_append last_conv_nth)
  moreover have "drop (length w) s = post" using mp(1) len by simp
  ultimately have "rmatch flags_i WordB (Some (last m)) post \<noteq> []" using b2 by simp
  then have "post = [] \<or> \<not> is_word (hd post)"
    using me(3) by (cases post) (auto simp: Let_def split: if_splits)
  then show "\<exists>m post. s = m @ post \<and> ci_eq w m \<and>
        (case p of None \<Rightarrow> True | Some c \<Rightarrow> \<not> is_word c) \<and>
        (post = [] \<or> \<not> is_word (hd post))"
    using mp pc by blast
next
  assume "\<exists>m post. s = m @ post \<and> ci_eq w m \<and>
        (case p of None \<Rightarrow> True | Some c \<Rightarrow> \<not> is_word c) \<and>
        (post = [] \<or> \<not> is_word (hd post))"
  then obtain m post where mp: "s = m @ post" "ci_eq w m"
      and pc: "(case p of None \<Rightarrow> True | Some c \<Rightarrow> \<not> is_word c)"
      and qc: "post = [] \<or> \<not> is_word (hd post)"
    by blast
  have len: "length m = length w" using mp(2) by (simp add: ci_eq_def list_all2_lengthD)
  have me: "m \<noteq> []" "is_word (hd m)" "is_word (last m)"
    using ci_eq_word_ends [OF mp(2) w] by simp_all
  have lm: "lit_match flags_i w s" using mp lit_match_ci by blast
  have hs: "(case s of [] \<Rightarrow> False | c # _ \<Rightarrow> is_word c)"
    using me mp(1) by (cases m) auto
  have b1: "rmatch flags_i WordB p s = [0]"
    using pc hs by (auto simp: Let_def split: option.splits)
  have lt: "length w - 1 < length m" using len me(1) by (cases m) auto
  have e1: "s ! (length w - 1) = last m"
    using mp(1) len me(1) lt by (simp add: nth_append last_conv_nth)
  have e2: "drop (length w) s = post" using mp(1) len by simp
  have b2: "rmatch flags_i WordB (Some (last m)) post = [0]"
    using qc me(3) by (cases post) (auto simp: Let_def)
  show "rmatch flags_i (seqs [WordB, Lit w, WordB]) p s \<noteq> []"
    using b1 lm b2 e1 e2 w(1) by (simp add: prev_after_def)
qed

lemma re_test_failure: "re_test flags_i failure_re l \<longleftrightarrow>
   has_word (js ''error'') l \<or> has_token (js ''exception'') l \<or> has_token (js ''failed'') l"
proof -
  have t: "\<And>w. has_token w l \<longleftrightarrow> (\<exists>pre post. l = pre @ post \<and> lit_match flags_i w post)"
    unfolding has_token_def lit_match_ci by blast
  have werr: "js ''error'' \<noteq> []" "is_word (hd (js ''error''))" "is_word (last (js ''error''))"
    by (simp_all add: js_def is_word_def is_lower_def)
  have hw: "has_word (js ''error'') l \<longleftrightarrow>
     (\<exists>pre post. l = pre @ post \<and>
        rmatch flags_i (seqs [WordB, Lit (js ''error''), WordB])
          (if pre = [] then None else Some (last pre)) post \<noteq> [])"
  proof -
    have c: "\<And>pre. (case if pre = [] then None else Some (last pre) of None \<Rightarrow> True
              | Some c \<Rightarrow> \<not> is_word c) \<longleftrightarrow> (pre = [] \<or> \<not> is_word (last pre))"
      by simp
    show ?thesis
      unfolding rmatch_word_bounded [OF werr] has_word_def c by blast
  qed
  have alt: "\<And>p s. rmatch flags_i failure_re p s \<noteq> [] \<longleftrightarrow>
      rmatch flags_i (seqs [WordB, Lit (js ''error''), WordB]) p s \<noteq> [] \<or>
      lit_match flags_i (js ''exception'') s \<or> lit_match flags_i (js ''failed'') s"
    unfolding failure_re_def alts.simps rmatch_Alt_ne rmatch_Lit_ne by simp
  show ?thesis
    unfolding re_test_iff alt hw t by blast
qed

lemma fallback_line_iff: "fallback_line l \<longleftrightarrow> generic_failure_line l"
proof (cases "l = []")
  case True
  have "\<And>w. w \<noteq> [] \<Longrightarrow> \<not> has_token w []"
    by (auto simp: has_token_def ci_eq_def)
  moreover have "\<And>w. w \<noteq> [] \<Longrightarrow> \<not> has_word w []"
    by (auto simp: has_word_def ci_eq_def)
  ultimately have "\<not> generic_failure_line []"
    by (simp add: generic_failure_line_def js_def)
  then show ?thesis using True by (simp add: fallback_line_def)
next
  case False
  then show ?thesis
    by (simp add: fallback_line_def generic_failure_line_def re_test_annotation re_test_failure)
qed

lemma findIndex_Some_iff:
  "findIndex P xs = Some i \<longleftrightarrow> i < length xs \<and> P (xs ! i) \<and> (\<forall>j<i. \<not> P (xs ! j))"
proof (induction xs arbitrary: i)
  case Nil
  then show ?case by simp
next
  case (Cons x xs)
  show ?case
  proof (cases "P x")
    case True
    then show ?thesis by (cases i) auto
  next
    case False
    show ?thesis
    proof (cases i)
      case 0
      then show ?thesis using False by auto
    next
      case (Suc n)
      have "(\<forall>j<Suc n. \<not> P ((x # xs) ! j)) \<longleftrightarrow> (\<forall>j<n. \<not> P (xs ! j))"
        using False by (auto simp: less_Suc_eq_0_disj)
      then show ?thesis using False Suc Cons.IH [of n] by auto
    qed
  qed
qed

lemma findIndex_None_iff: "findIndex P xs = None \<longleftrightarrow> (\<forall>x \<in> set xs. \<not> P x)"
  by (induction xs) auto

lemma first_rule_hit_first_match:
  "first_match rules lines k i \<Longrightarrow>
   first_rule_hit rules lines = Some (make_hit (fst (rules ! k)) lines i)"
proof (induction rules arbitrary: k)
  case Nil
  then show ?case by (simp add: first_match_def)
next
  case (Cons r rules)
  obtain nm t where r: "r = (nm, t)" by (cases r)
  show ?case
  proof (cases k)
    case 0
    then have "findIndex t lines = Some i"
      using Cons.prems r by (simp add: first_match_def findIndex_Some_iff)
    then show ?thesis using r 0 by simp
  next
    case (Suc k')
    have "\<forall>l \<in> set lines. \<not> t l"
      using Cons.prems r Suc unfolding first_match_def by fastforce
    then have none: "findIndex t lines = None" by (simp add: findIndex_None_iff)
    have "first_match rules lines k' i"
      using Cons.prems Suc unfolding first_match_def by fastforce
    then have "first_rule_hit rules lines = Some (make_hit (fst (rules ! k')) lines i)"
      by (rule Cons.IH)
    then show ?thesis using none r Suc by simp
  qed
qed

lemma first_rule_hit_none:
  "no_rule_matches rules lines \<Longrightarrow> first_rule_hit rules lines = None"
proof (induction rules)
  case Nil
  then show ?case by simp
next
  case (Cons r rules)
  obtain nm t where r: "r = (nm, t)" by (cases r)
  have "findIndex t lines = None"
    using Cons.prems r by (simp add: no_rule_matches_def findIndex_None_iff)
  moreover have "no_rule_matches rules lines"
    using Cons.prems by (simp add: no_rule_matches_def)
  ultimately show ?case using Cons.IH r by simp
qed

lemma first_rule_hit_shape:
  "first_rule_hit rules lines = Some h \<Longrightarrow> \<exists>nm i. i < length lines \<and> h = make_hit nm lines i"
proof (induction rules)
  case Nil
  then show ?case by simp
next
  case (Cons r rules)
  obtain nm t where r: "r = (nm, t)" by (cases r)
  show ?case
  proof (cases "findIndex t lines")
    case None
    then show ?thesis using Cons r by simp
  next
    case (Some i)
    then have "i < length lines" by (simp add: findIndex_Some_iff)
    then show ?thesis using Cons.prems r Some by auto
  qed
qed

lemma pickFirstMeaningfulError_shape:
  assumes "pickFirstMeaningfulError lines customRules = Some h"
  shows "\<exists>nm i. i < length lines \<and> h = make_hit nm lines i"
proof (cases "first_rule_hit (all_rules customRules) lines")
  case (Some h')
  then have "h' = h" using assms by (simp add: pickFirstMeaningfulError_def)
  then show ?thesis using Some first_rule_hit_shape by blast
next
  case None
  then obtain i where i: "findIndex fallback_line lines = Some i"
      and h: "h = make_hit (js ''Generic'') lines i"
    using assms by (auto simp: pickFirstMeaningfulError_def split: option.splits)
  then have "i < length lines" by (simp add: findIndex_Some_iff)
  then show ?thesis using h by blast
qed

lemma drop_take_nth:
  "n \<le> length xs \<Longrightarrow> drop m (take n xs) = map (\<lambda>j. xs ! j) [m ..< n]"
  by (rule nth_equalityI) auto

lemma excerpt_make_hit:
  assumes "i < length lines"
  shows "excerpt (make_hit nm lines i) =
     map (\<lambda>j. lines ! j) [i - 2 ..< min (length lines) (i + 12)]"
proof -
  let ?n = "min (length lines) (i + 12)"
  have a: "nat (max 0 (int i - 2)) = i - 2" by auto
  have b: "nat (min (int (length lines)) (int i + 12)) = ?n" by auto
  have c: "nat (min (int (length lines)) (int i + 12) - max 0 (int i - 2)) = ?n - (i - 2)"
    unfolding min_def max_def by (auto simp: nat_diff_distrib)
  have d: "min (max 0 (int i - 2)) (int (length lines)) = max 0 (int i - 2)"
    using assms unfolding min_def max_def by auto
  have e: "min (min (int (length lines)) (int i + 12)) (int (length lines)) =
        min (int (length lines)) (int i + 12)"
    unfolding min_def by auto
  have f: "\<not> max 0 (int i - 2) < 0" "\<not> min (int (length lines)) (int i + 12) < 0"
    unfolding min_def max_def by auto
  have "excerpt (make_hit nm lines i) =
      js_slice lines (max 0 (int i - 2)) (min (int (length lines)) (int i + 12))"
    by (simp add: make_hit_def)
  also have "\<dots> = take (?n - (i - 2)) (drop (i - 2) lines)"
    unfolding js_slice_def Let_def if_not_P [OF f(1)] if_not_P [OF f(2)] d e c a ..
  also have "\<dots> = drop (i - 2) (take ?n lines)"
    by (simp add: drop_take)
  also have "\<dots> = map (\<lambda>j. lines ! j) [i - 2 ..< ?n]"
    by (rule drop_take_nth) simp
  finally show ?thesis .
qed

text \<open>
  Claim C5, as amended. For every line sequence and every hit at index \<open>i\<close>, the excerpt
  is exactly the lines from index \<open>i - 2\<close> through index \<open>i + 11\<close> inclusive, clipped to
  the sequence bounds: two lines before the match, the match line, and eleven lines after
  it (\<^verbatim>\<open>slice\<close> excludes its end index \<open>i + 12\<close>).
\<close>

theorem excerpt_window:
  assumes "pickFirstMeaningfulError lines customRules = Some h"
  shows "lineIndex h < length lines \<and>
     excerpt h = map (\<lambda>j. lines ! j) [lineIndex h - 2 ..< min (length lines) (lineIndex h + 12)]"
proof -
  obtain nm i where i: "i < length lines" and h: "h = make_hit nm lines i"
    using pickFirstMeaningfulError_shape [OF assms] by blast
  have "lineIndex h = i" using h by (simp add: make_hit_def)
  then show ?thesis using i h excerpt_make_hit by simp
qed

text \<open>
  Claim C1. The rules are the user's rules followed by the built-in rules in the order of
  their declaration. The hit comes from the first rule of that list that matches any line,
  at the first line this rule matches; when no rule matches any line, the hit is the first
  line with the token error (as a word), exception or failed, up to case, that is not a
  group, endgroup, debug or notice annotation line, with category \<^verbatim>\<open>Generic\<close>; when
  there is no such line either, the result is null.
\<close>

theorem pickFirstMeaningfulError_order:
  assumes rules: "rules = map (\<lambda>r. (rule_name r, rule_re r)) customRules @
                        map (\<lambda>(nm, fl, r). (nm, re_test fl r)) builtin_rules"
  shows "(first_match rules lines k i \<longrightarrow>
            (\<exists>h. pickFirstMeaningfulError lines customRules = Some h \<and>
               rule h = fst (rules ! k) \<and> lineIndex h = i \<and> line h = lines ! i)) \<and>
         (no_rule_matches rules lines \<and> first_generic lines i \<longrightarrow>
            (\<exists>h. pickFirstMeaningfulError lines customRules = Some h \<and>
               rule h = js ''Generic'' \<and> lineIndex h = i \<and> line h = lines ! i)) \<and>
         (no_rule_matches rules lines \<and> (\<forall>l \<in> set lines. \<not> generic_failure_line l) \<longrightarrow>
            pickFirstMeaningfulError lines customRules = None)"
proof -
  have ar: "all_rules customRules = rules" by (simp add: rules all_rules_def)
  have fb: "fallback_line = generic_failure_line"
    by (rule ext) (rule fallback_line_iff)
  have p1: "first_match rules lines k i \<longrightarrow>
            (\<exists>h. pickFirstMeaningfulError lines customRules = Some h \<and>
               rule h = fst (rules ! k) \<and> lineIndex h = i \<and> line h = lines ! i)"
  proof
    assume "first_match rules lines k i"
    then have "first_rule_hit rules lines = Some (make_hit (fst (rules ! k)) lines i)"
      by (rule first_rule_hit_first_match)
    then have "pickFirstMeaningfulError lines customRules = Some (make_hit (fst (rules ! k)) lines i)"
      by (simp add: pickFirstMeaningfulError_def ar)
    then show "\<exists>h. pickFirstMeaningfulError lines customRules = Some h \<and>
               rule h = fst (rules ! k) \<and> lineIndex h = i \<and> line h = lines ! i"
      by (simp add: make_hit_def)
  qed
  have p2: "no_rule_matches rules lines \<and> first_generic lines i \<longrightarrow>
            (\<exists>h. pickFirstMeaningfulError lines customRules = Some h \<and>
               rule h = js ''Generic'' \<and> lineIndex h = i \<and> line h = lines ! i)"
  proof
    assume a: "no_rule_matches rules lines \<and> first_generic lines i"
    then have n: "first_rule_hit rules lines = None" by (simp add: first_rule_hit_none)
    have "findIndex fallback_line lines = Some i"
      using a by (simp add: fb findIndex_Some_iff first_generic_def)
    then have "pickFirstMeaningfulError lines customRules = Some (make_hit (js ''Generic'') lines i)"
      using n by (simp add: pickFirstMeaningfulError_def ar)
    then show "\<exists>h. pickFirstMeaningfulError lines customRules = Some h \<and>
               rule h = js ''Generic'' \<and> lineIndex h = i \<and> line h = lines ! i"
      by (simp add: make_hit_def)
  qed
  have p3: "no_rule_matches rules lines \<and> (\<forall>l \<in> set lines. \<not> generic_failure_line l) \<longrightarrow>
            pickFirstMeaningfulError lines customRules = None"
  proof
    assume a: "no_rule_matches rules lines \<and> (\<forall>l \<in> set lines. \<not> generic_failure_line l)"
    then have n: "first_rule_hit rules lines = None" by (simp add: first_rule_hit_none)
    have "findIndex fallback_line lines = None"
      using a by (simp add: fb findIndex_None_iff)
    then show "pickFirstMeaningfulError lines customRules = None"
      using n by (simp add: pickFirstMeaningfulError_def ar)
  qed
  show ?thesis using p1 p2 p3 by blast
qed

lemmas class_eval = is_space_def is_digit_def is_dot_def is_line_terminator_def is_word_def
  is_upper_def is_lower_def not_space_def is_digit19_def is_hex_def is_lower_hex_def
  cmatch_def toggle_case_def

lemmas re_eval = js_def re_test_def flags_i_def flags_none_def flags_m_def rep_star_def
  rep_plus_def rep_n_def prev_after_def Let_def class_eval

lemmas detect_eval = pickFirstMeaningfulError_def all_rules_def builtin_rules_def
  error_or_failed_def make_hit_def fallback_line_def annotation_re_def failure_re_def
  js_slice_def re_eval

lemma ex_log_hit: "pickFirstMeaningfulError ex_log [] = Some ex_hit"
  by (simp add: ex_log_def ex_hit_def detect_eval)

theorem excerpt_window_witness:
  "pickFirstMeaningfulError ex_log [] = Some ex_hit \<and> lineIndex ex_hit = 3 \<and>
   excerpt ex_hit = take 14 (drop 1 ex_log)"
proof -
  have e: "pickFirstMeaningfulError ex_log [] = Some ex_hit"
    by (simp add: ex_log_def ex_hit_def detect_eval)
  have i: "lineIndex ex_hit = 3" by (simp add: ex_hit_def make_hit_def)
  have "excerpt ex_hit = map (\<lambda>j. ex_log ! j) [3 - 2 ..< min (length ex_log) (3 + 12)]"
    using excerpt_window [OF e] i by simp
  also have "\<dots> = take 14 (drop 1 ex_log)"
    by (simp add: ex_log_def upt_rec [of _ "numeral _"])
  finally show ?thesis using e i by simp
qed

text \<open>
  Claim C5 as stated fails: in a log of twenty lines with the match at line 3, the excerpt
  is the fourteen lines 1 to 14, not the fifteen lines 1 to 15.
\<close>

theorem excerpt_twelve_after_counterexample:
  "map_option lineIndex (pickFirstMeaningfulError ex_log []) = Some 3 \<and>
   map_option excerpt (pickFirstMeaningfulError ex_log []) = Some (take 14 (drop 1 ex_log)) \<and>
   map_option excerpt (pickFirstMeaningfulError ex_log []) \<noteq> Some (take 15 (drop 1 ex_log))"
  by (simp add: ex_log_def ex_hit_def detect_eval)

lemma all_less_3: "(\<forall>i<(3::nat). P i) \<longleftrightarrow> P 0 \<and> P 1 \<and> P 2"
proof -
  have "\<And>i::nat. i < 3 \<longleftrightarrow> i = 0 \<or> i = 1 \<or> i = 2" by auto
  then show ?thesis by auto
qed

theorem pickFirstMeaningfulError_order_witness:
  "first_match (all_rules [ex_rule]) ex_log 1 3 \<and>
   map_option rule (pickFirstMeaningfulError ex_log [ex_rule]) = Some (js ''ESLint'') \<and>
   map_option lineIndex (pickFirstMeaningfulError ex_log [ex_rule]) = Some 3 \<and>
   no_rule_matches (all_rules []) [js ''ok'', js ''it failed''] \<and>
   first_generic [js ''ok'', js ''it failed''] 1 \<and>
   map_option rule (pickFirstMeaningfulError [js ''ok'', js ''it failed''] []) = Some (js ''Generic'') \<and>
   no_rule_matches (all_rules []) [js ''ok''] \<and>
   \<not> generic_failure_line (js ''ok'') \<and>
   pickFirstMeaningfulError [js ''ok''] [] = None"
proof -
  have r1: "all_rules [ex_rule] = map (\<lambda>r. (rule_name r, rule_re r)) [ex_rule] @
                        map (\<lambda>(nm, fl, r). (nm, re_test fl r)) builtin_rules"
    by (simp add: all_rules_def)
  have r0: "all_rules [] = map (\<lambda>r. (rule_name r, rule_re r)) [] @
                        map (\<lambda>(nm, fl, r). (nm, re_test fl r)) builtin_rules"
    by (simp add: all_rules_def)
  have nm: "fst (all_rules [ex_rule] ! 1) = js ''ESLint''"
    by (simp add: all_rules_def builtin_rules_def)
  have a1: "first_match (all_rules [ex_rule]) ex_log 1 3"
    unfolding first_match_def all_less_3
    by (simp add: ex_log_def ex_rule_def all_rules_def builtin_rules_def re_eval)
  have c1: "\<exists>h. pickFirstMeaningfulError ex_log [ex_rule] = Some h \<and>
       rule h = fst (all_rules [ex_rule] ! 1) \<and> lineIndex h = 3 \<and> line h = ex_log ! 3"
    using pickFirstMeaningfulError_order [OF r1, of ex_log 1 3 ] a1 by blast
  have a2: "no_rule_matches (all_rules []) [js ''ok'', js ''it failed'']"
    unfolding no_rule_matches_def
    by (simp add: all_rules_def builtin_rules_def error_or_failed_def re_eval)
  have g1: "generic_failure_line (js ''it failed'')"
    unfolding fallback_line_iff [symmetric]
    by (simp add: fallback_line_def annotation_re_def failure_re_def re_eval)
  have g0: "\<not> generic_failure_line (js ''ok'')"
    unfolding fallback_line_iff [symmetric]
    by (simp add: fallback_line_def annotation_re_def failure_re_def re_eval)
  have b2: "first_generic [js ''ok'', js ''it failed''] 1"
    using g0 g1 by (simp add: first_generic_def)
  have c2: "\<exists>h. pickFirstMeaningfulError [js ''ok'', js ''it failed''] [] = Some h \<and>
       rule h = js ''Generic'' \<and> lineIndex h = 1 \<and> line h = [js ''ok'', js ''it failed''] ! 1"
    using pickFirstMeaningfulError_order [OF r0, of "[js ''ok'', js ''it failed'']" 0 1] a2 b2
    by blast
  have a3: "no_rule_matches (all_rules []) [js ''ok'']"
    using a2 by (simp add: no_rule_matches_def)
  have b3: "\<forall>l \<in> set [js ''ok'']. \<not> generic_failure_line l"
    using g0 by simp
  have c3: "pickFirstMeaningfulError [js ''ok''] [] = None"
    using pickFirstMeaningfulError_order [OF r0, of "[js ''ok'']" 0 0] a3 b3 by blast
  show ?thesis
    using a1 c1 nm a2 b2 c2 a3 g0 c3 by auto
qed

section \<open>Properties of signatures and of the normaliser\<close>

lemma starts_with_append: "starts_with (w @ b) w"
  by (induction w) auto

lemma js_includes_mid: "js_includes (a @ w @ b) w"
proof (induction a)
  case Nil
  show ?case using starts_with_append [of w b] by (cases "w @ b") auto
next
  case (Cons c a)
  then show ?case by simp
qed

lemma sep_longer:
  assumes "\<not> js_includes c1 [58, 32]" and "c1 = c2 @ us" and "us @ 58 # 32 # r1 = 58 # 32 # r2"
  shows "us = []"
proof (cases us)
  case Nil
  then show ?thesis .
next
  case (Cons a vs)
  show ?thesis
  proof (cases vs)
    case Nil
    then show ?thesis using Cons assms(3) by simp
  next
    case inner: (Cons b ws)
    then have "c1 = c2 @ [58, 32] @ ws" using Cons assms(2,3) by simp
    then have "js_includes c1 [58, 32]" using js_includes_mid [of c2 "[58, 32]" ws] by simp
    then show ?thesis using assms(1) by simp
  qed
qed

lemma append_sep_eq:
  assumes "\<not> js_includes c1 [58, 32]" and "\<not> js_includes c2 [58, 32]"
      and "c1 @ 58 # 32 # r1 = c2 @ 58 # 32 # r2"
  shows "c1 = c2 \<and> r1 = r2"
proof -
  obtain us where "c1 = c2 @ us \<and> us @ 58 # 32 # r1 = 58 # 32 # r2 \<or>
                   c1 @ us = c2 \<and> 58 # 32 # r1 = us @ 58 # 32 # r2"
    using assms(3) by (auto simp: append_eq_append_conv2)
  then show ?thesis
  proof
    assume a: "c1 = c2 @ us \<and> us @ 58 # 32 # r1 = 58 # 32 # r2"
    then have "us = []" using sep_longer [OF assms(1)] by blast
    then show ?thesis using a by simp
  next
    assume a: "c1 @ us = c2 \<and> 58 # 32 # r1 = us @ 58 # 32 # r2"
    then have "us = []" using sep_longer [OF assms(2), of c1 us r2 r1] by auto
    then show ?thesis using a by simp
  qed
qed

text \<open>
  Claim C10, as amended. Two hits with equal categories and byte-equal normalised lines have
  the same signature, and two hits with the same signature have the same fingerprint,
  whatever the categories. For two hits whose categories do not contain a colon followed by
  a space (every built-in category, \<^verbatim>\<open>Generic\<close>, and custom names such as
  \<^verbatim>\<open>lint:js\<close>) the converse holds: the same signature only for equal categories and
  byte-equal normalised lines. The ESLint lines of the specification are the witness.
\<close>

theorem signature_eq_iff:
  "(c1 = c2 \<and> normalize_line l1 = normalize_line l2 \<longrightarrow> signature c1 l1 = signature c2 l2) \<and>
   (signature c1 l1 = signature c2 l2 \<longrightarrow>
      signatureHash sha1 c1 l1 = signatureHash sha1 c2 l2) \<and>
   (\<not> js_includes c1 (js '': '') \<and> \<not> js_includes c2 (js '': '') \<and>
    signature c1 l1 = signature c2 l2 \<longrightarrow>
      c1 = c2 \<and> normalize_line l1 = normalize_line l2)"
proof -
  have a: "c1 = c2 \<and> normalize_line l1 = normalize_line l2 \<longrightarrow> signature c1 l1 = signature c2 l2"
    by (simp add: signature_def)
  have b: "signature c1 l1 = signature c2 l2 \<longrightarrow>
           signatureHash sha1 c1 l1 = signatureHash sha1 c2 l2"
    by (simp add: signatureHash_def)
  have c: "c1 = c2 \<and> normalize_line l1 = normalize_line l2"
    if n: "\<not> js_includes c1 (js '': '')" "\<not> js_includes c2 (js '': '')"
      and s: "signature c1 l1 = signature c2 l2"
  proof -
    have sep: "js '': '' = [58, 32]" by (simp add: js_def)
    have "c1 @ 58 # 32 # normalize_line l1 = c2 @ 58 # 32 # normalize_line l2"
      using s by (simp add: signature_def sep)
    then show ?thesis using n unfolding sep by (intro append_sep_eq)
  qed
  show ?thesis using a b c by blast
qed

lemmas norm_eval = normalize_line_def replace_all_def trim_def timestamp_prefix_re_def
  hex_literal_re_def hash_token_re_def line_col_re_def line_re_def hex_placeholder_def
  sha_placeholder_def re_eval

theorem signature_eq_iff_witness:
  "\<not> js_includes (js ''ESLint'') (js '': '') \<and>
   normalize_line (js ''src/a.ts:12:4 error Foo'') = normalize_line (js ''src/a.ts:99:1 error Foo'') \<and>
   signature (js ''ESLint'') (js ''src/a.ts:12:4 error Foo'') =
     signature (js ''ESLint'') (js ''src/a.ts:99:1 error Foo'') \<and>
   signatureHash (\<lambda>s. s) (js ''ESLint'') (js ''src/a.ts:12:4 error Foo'') =
     signatureHash (\<lambda>s. s) (js ''ESLint'') (js ''src/a.ts:99:1 error Foo'')"
proof -
  have c: "\<not> js_includes (js ''ESLint'') (js '': '')" by (simp add: js_def)
  have n1: "normalize_line (js ''src/a.ts:12:4 error Foo'') = js ''src/a.ts:<line>:<col> error Foo''"
    by (simp add: norm_eval)
  have n2: "normalize_line (js ''src/a.ts:99:1 error Foo'') = js ''src/a.ts:<line>:<col> error Foo''"
    by (simp add: norm_eval)
  show ?thesis
    using signature_eq_iff [of "js ''ESLint''" "js ''ESLint''" "js ''src/a.ts:12:4 error Foo''"
        "js ''src/a.ts:99:1 error Foo''" "\<lambda>s. s"] c n1 n2
    by simp
qed

text \<open>
  Claim C10 as stated fails for custom rule names with a colon and a space: the categories
  \<^verbatim>\<open>A\<close> and \<^verbatim>\<open>A: B\<close> differ, and yet the lines \<^verbatim>\<open>B: C\<close> and \<^verbatim>\<open>C\<close> give
  them one signature.
\<close>

theorem signature_not_injective:
  "signature (js ''A'') (js ''B: C'') = signature (js ''A: B'') (js ''C'') \<and>
   js ''A'' \<noteq> js ''A: B''"
  by (simp add: signature_def norm_eval)

text \<open>
  Claim C9 as stated fails. A colon, a digit and forty letters \<^verbatim>\<open>a\<close> are a token of 41
  hexadecimal characters, too long for the hash pattern; the line-number pattern then
  removes the digit, and the forty letters left are a hash token for the second pass.
\<close>

theorem normalize_not_idempotent:
  "normalize_line ex_long_hex = ex_long_hex_once \<and>
   normalize_line (normalize_line ex_long_hex) = ex_long_hex_twice \<and>
   normalize_line (normalize_line ex_long_hex) \<noteq> normalize_line ex_long_hex"
proof -
  have a: "normalize_line ex_long_hex = ex_long_hex_once"
    by (simp add: norm_eval ex_long_hex_def ex_long_hex_once_def)
  have b: "normalize_line ex_long_hex_once = ex_long_hex_twice"
    by (simp add: norm_eval ex_long_hex_once_def ex_long_hex_twice_def)
  have c: "ex_long_hex_twice \<noteq> ex_long_hex_once"
    by (simp add: ex_long_hex_once_def ex_long_hex_twice_def js_def)
  show ?thesis using a b c by simp
qed

lemma gsub_no_match: "re_search fl r p s = None \<Longrightarrow> gsub fl r rep p s = s"
proof (induction s arbitrary: p)
  case Nil
  then show ?case by (simp split: list.splits)
next
  case (Cons c cs)
  then have "rmatch fl r p (c # cs) = []" by (simp split: list.splits)
  moreover from this have "re_search fl r (Some c) cs = None" using Cons.prems by simp
  ultimately show ?case using Cons.IH by simp
qed

lemma cdf_append: "colon_digit_free (a @ b) \<Longrightarrow> colon_digit_free a \<and> colon_digit_free b"
proof (induction a)
  case Nil
  then show ?case by simp
next
  case (Cons x xs)
  show ?case
  proof (cases xs)
    case Nil
    then show ?thesis using Cons.prems by (cases b) auto
  next
    case inner: (Cons y ys)
    then show ?thesis using Cons.IH Cons.prems by auto
  qed
qed

lemma cdf_drop: "colon_digit_free s \<Longrightarrow> colon_digit_free (drop n s)"
  using cdf_append [of "take n s" "drop n s"] by simp

lemma trim_sublist: "\<exists>a b. s = a @ trim s @ b"
proof -
  let ?t = "dropWhile is_space s"
  have "s = takeWhile is_space s @ ?t" by simp
  moreover have "?t = trim s @ rev (takeWhile is_space (rev ?t))"
  proof -
    have "?t = rev (rev ?t)" by simp
    also have "\<dots> = rev (takeWhile is_space (rev ?t) @ dropWhile is_space (rev ?t))"
      by (simp only: takeWhile_dropWhile_id)
    also have "\<dots> = rev (dropWhile is_space (rev ?t)) @ rev (takeWhile is_space (rev ?t))"
      by (simp only: rev_append)
    finally show ?thesis by (simp only: trim_def)
  qed
  ultimately show ?thesis by metis
qed

lemma cdf_trim: "colon_digit_free s \<Longrightarrow> colon_digit_free (trim s)"
proof -
  assume a: "colon_digit_free s"
  obtain u v where "s = u @ trim s @ v" using trim_sublist by blast
  then have "colon_digit_free (u @ trim s @ v)" using a by simp
  then show ?thesis using cdf_append by blast
qed

lemma dropWhile_id: "xs = [] \<or> \<not> P (hd xs) \<Longrightarrow> dropWhile P xs = xs"
  by (cases xs) auto

lemma dropWhile_hd: "dropWhile P xs = [] \<or> \<not> P (hd (dropWhile P xs))"
  by (metis hd_dropWhile)

lemma trim_trim: "trim (trim s) = trim s"
proof -
  let ?t = "dropWhile is_space s"
  let ?r = "dropWhile is_space (rev ?t)"
  have u: "trim s = rev ?r" by (simp add: trim_def)
  have r_ok: "?r = [] \<or> \<not> is_space (hd ?r)" by (rule dropWhile_hd)
  have front: "dropWhile is_space (rev ?r) = rev ?r"
  proof (cases "?r = []")
    case True
    show ?thesis by (simp only: True rev.simps dropWhile.simps)
  next
    case False
    have tne: "?t \<noteq> []"
    proof
      assume "?t = []"
      then have "?r = []" by (simp only: rev.simps dropWhile.simps)
      then show False using False by simp
    qed
    have "rev ?t = takeWhile is_space (rev ?t) @ ?r" by simp
    then have "?t = rev ?r @ rev (takeWhile is_space (rev ?t))"
      by (metis rev_append rev_rev_ident)
    then have "hd ?t = hd (rev ?r)" using False
      by (metis hd_append2 rev_is_Nil_conv)
    moreover have "\<not> is_space (hd ?t)" using tne dropWhile_hd [of is_space s] by blast
    ultimately show ?thesis by (intro dropWhile_id) simp
  qed
  have "trim (trim s) = rev (dropWhile is_space (rev (dropWhile is_space (rev ?r))))"
    unfolding u by (simp add: trim_def)
  also have "\<dots> = rev (dropWhile is_space ?r)" using front by simp
  also have "\<dots> = rev ?r" using r_ok by (simp add: dropWhile_id)
  finally show ?thesis using u by simp
qed

lemma cmatch_none [simp]: "cmatch flags_none P c = P c"
  by (simp add: cmatch_def flags_none_def)

lemma lit_match_colon: "lit_match flags_none (js '':'') s \<longleftrightarrow> (\<exists>rest. s = 58 # rest)"
  by (cases s) (auto simp: js_def)

lemma rmatch_line_re:
  "rmatch flags_none line_re p s =
     (case s of [] \<Rightarrow> []
      | c # cs \<Rightarrow>
          if c = 58 \<and> takeWhile is_digit cs \<noteq> []
          then map (\<lambda>k. Suc k) (rev [1 ..< Suc (length (takeWhile is_digit cs))])
          else [])"
proof (cases s)
  case Nil
  then show ?thesis by (simp add: line_re_def js_def)
next
  case (Cons c cs)
  show ?thesis
  proof (cases "c = 58")
    case False
    then show ?thesis using Cons by (simp add: line_re_def js_def)
  next
    case True
    have "takeWhile (cmatch flags_none is_digit) cs = takeWhile is_digit cs"
      by (simp cong: takeWhile_cong)
    then show ?thesis using Cons True
      by (simp add: line_re_def js_def rep_plus_def prev_after_def Let_def Suc_le_eq)
  qed
qed

lemma rmatch_line_re_Nil:
  "rmatch flags_none line_re p s = [] \<longleftrightarrow> \<not> (\<exists>d rest. s = 58 # d # rest \<and> is_digit d)"
proof (cases s)
  case Nil
  then show ?thesis by (simp add: rmatch_line_re)
next
  case (Cons c cs)
  have "takeWhile is_digit cs \<noteq> [] \<longleftrightarrow> (\<exists>d rest. cs = d # rest \<and> is_digit d)"
    by (cases cs) auto
  then show ?thesis using Cons by (auto simp: rmatch_line_re)
qed

lemma rmatch_line_re_Cons:
  assumes "rmatch flags_none line_re p s = n # ns"
  shows "\<exists>cs. s = 58 # cs \<and> takeWhile is_digit cs \<noteq> [] \<and>
     n = Suc (length (takeWhile is_digit cs)) \<and> drop n s = dropWhile is_digit cs"
proof (cases s)
  case Nil
  then show ?thesis using assms by (simp add: rmatch_line_re)
next
  case (Cons c cs)
  then have c: "c = 58" "takeWhile is_digit cs \<noteq> []"
    using assms by (auto simp: rmatch_line_re Suc_le_eq split: if_splits)
  let ?k = "length (takeWhile is_digit cs)"
  have k: "0 < ?k" using c(2) by simp
  have "rev [1 ..< Suc ?k] = ?k # rev [1 ..< ?k]" using k by (simp add: Suc_le_eq)
  then have "n = Suc ?k" using assms Cons c k by (simp add: rmatch_line_re)
  moreover have "drop ?k cs = dropWhile is_digit cs"
    by (simp add: dropWhile_eq_drop)
  ultimately show ?thesis using Cons c by simp
qed

lemma gsub_line_props:
  "colon_digit_free (gsub flags_none line_re (js '':<line>'') p s) \<and>
   (case s of [] \<Rightarrow> gsub flags_none line_re (js '':<line>'') p s = []
    | c # _ \<Rightarrow> gsub flags_none line_re (js '':<line>'') p s \<noteq> [] \<and>
        hd (gsub flags_none line_re (js '':<line>'') p s) = c)"
proof (induction "length s" arbitrary: s p rule: less_induct)
  case less
  let ?g = "gsub flags_none line_re (js '':<line>'')"
  show ?case
  proof (cases s)
    case Nil
    then show ?thesis by (simp add: rmatch_line_re)
  next
    case (Cons c cs)
    show ?thesis
    proof (cases "rmatch flags_none line_re p s")
      case rn: Nil
      then have g: "?g p s = c # ?g (Some c) cs" using Cons by simp
      have ih: "colon_digit_free (?g (Some c) cs) \<and>
         (case cs of [] \<Rightarrow> ?g (Some c) cs = []
          | d # _ \<Rightarrow> ?g (Some c) cs \<noteq> [] \<and> hd (?g (Some c) cs) = d)"
        using less [of cs "Some c"] Cons by simp
      have nm: "\<not> (\<exists>d rest. s = 58 # d # rest \<and> is_digit d)"
        using rn rmatch_line_re_Nil by blast
      have "colon_digit_free (c # ?g (Some c) cs)"
      proof (cases cs)
        case Nil
        then show ?thesis using ih by simp
      next
        case cc: (Cons d ds)
        then obtain o' where o: "?g (Some c) cs = d # o'"
          using ih by (cases "?g (Some c) cs") auto
        have "\<not> (c = 58 \<and> is_digit d)" using nm Cons cc by simp
        then show ?thesis using ih o by simp
      qed
      then show ?thesis using g Cons by simp
    next
      case rc: (Cons n ns)
      obtain cs' where s': "s = 58 # cs'" "takeWhile is_digit cs' \<noteq> []"
          "n = Suc (length (takeWhile is_digit cs'))" "drop n s = dropWhile is_digit cs'"
        using rmatch_line_re_Cons [OF rc] by blast
      have c58: "c = 58" "cs' = cs" using s' Cons by simp_all
      have n0: "n \<noteq> 0" using s'(3) by simp
      let ?rest = "dropWhile is_digit cs'"
      let ?q = "prev_after p s n"
      have g: "?g p s = js '':<line>'' @ ?g ?q ?rest"
        using Cons rc n0 s'(4) by simp
      have "length ?rest < length s"
        using s'(1) by (simp add: length_dropWhile_le le_imp_less_Suc)
      then have ih: "colon_digit_free (?g ?q ?rest)" using less [of ?rest ?q] by simp
      have "colon_digit_free (js '':<line>'' @ ?g ?q ?rest)"
        using ih by (cases "?g ?q ?rest") (simp_all add: js_def is_digit_def)
      moreover have "hd (js '':<line>'' @ ?g ?q ?rest) = 58" by (simp add: js_def)
      moreover have "js '':<line>'' @ ?g ?q ?rest \<noteq> []" by (simp add: js_def)
      ultimately show ?thesis using g Cons c58 by simp
    qed
  qed
qed

lemma cdf_normalize: "colon_digit_free (normalize_line x)"
  unfolding normalize_line_def replace_all_def
  by (intro cdf_trim) (simp add: gsub_line_props)

lemma seq_peel:
  assumes "\<And>q t. colon_digit_free t \<Longrightarrow> rmatch fl b q t = []" and "colon_digit_free s"
  shows "rmatch fl (Seq a b) p s = []"
proof -
  have "\<And>n. rmatch fl b (prev_after p s n) (drop n s) = []"
    using assms cdf_drop by blast
  then show ?thesis by simp
qed

lemma colon_digits_rep:
  assumes "colon_digit_free s" and "0 < lo"
  shows "rmatch flags_none (Rep is_digit lo h) q (drop (length (js '':'')) s) = [] \<or>
         \<not> lit_match flags_none (js '':'') s"
proof (cases "lit_match flags_none (js '':'') s")
  case False
  then show ?thesis by simp
next
  case True
  then obtain rest where s: "s = 58 # rest" using lit_match_colon by blast
  have "takeWhile is_digit rest = []"
    using assms(1) s by (cases rest) auto
  moreover have "takeWhile (cmatch flags_none is_digit) rest = takeWhile is_digit rest"
    by (simp cong: takeWhile_cong)
  ultimately have "rmatch flags_none (Rep is_digit lo h) q rest = []"
    using assms(2) by (simp add: Let_def split: option.splits)
  then show ?thesis using s by (simp add: js_def)
qed

lemma colon_digits_last:
  assumes "colon_digit_free s" and "0 < lo"
  shows "rmatch flags_none (Seq (Lit (js '':'')) (Rep is_digit lo h)) p s = []"
  using colon_digits_rep [OF assms, of h] by (auto simp del: rmatch.simps(3))

lemma colon_digits_seq:
  assumes "colon_digit_free s" and "0 < lo"
  shows "rmatch flags_none (Seq (Lit (js '':'')) (Seq (Rep is_digit lo h) r)) p s = []"
  using colon_digits_rep [OF assms, of h] by (auto simp del: rmatch.simps(3))

lemma no_line_match: "colon_digit_free s \<Longrightarrow> rmatch flags_none line_re p s = []"
  unfolding line_re_def rep_plus_def seqs.simps by (rule colon_digits_last) simp_all

lemma no_line_col_match: "colon_digit_free s \<Longrightarrow> rmatch flags_none line_col_re p s = []"
  unfolding line_col_re_def rep_plus_def seqs.simps by (rule colon_digits_seq) simp_all

lemma no_timestamp_match:
  "colon_digit_free s \<Longrightarrow> rmatch flags_none timestamp_prefix_re p s = []"
  unfolding timestamp_prefix_re_def rep_plus_def rep_n_def seqs.simps
  by (intro seq_peel colon_digits_seq) simp_all

lemma no_search_on_cdf:
  assumes "\<And>q t. colon_digit_free t \<Longrightarrow> rmatch fl r q t = []" and "colon_digit_free s"
  shows "re_search fl r p s = None"
  using assms(2)
proof (induction s arbitrary: p)
  case Nil
  then show ?case using assms(1) [of "[]"] by simp
next
  case (Cons c cs)
  have "colon_digit_free cs" using Cons.prems cdf_append [of "[c]" cs] by simp
  then have "re_search fl r (Some c) cs = None" by (rule Cons.IH)
  then show ?case using assms(1) [OF Cons.prems] by simp
qed

text \<open>
  Claim C9, as amended. The normaliser is a pure function on strings, and
  \<open>normalize (normalize x) = normalize x\<close> for every input \<open>x\<close> whose normalised form has no
  hexadecimal literal and no token of 7 to 40 lower-case hexadecimal characters left.
\<close>

theorem normalize_idempotent_without_tokens:
  assumes "\<not> re_test flags_none hex_literal_re (normalize_line x)"
      and "\<not> re_test flags_none hash_token_re (normalize_line x)"
  shows "normalize_line (normalize_line x) = normalize_line x"
proof -
  let ?y = "normalize_line x"
  have cdf: "colon_digit_free ?y" by (rule cdf_normalize)
  have s1: "replace_all flags_none timestamp_prefix_re [] ?y = ?y"
    unfolding replace_all_def
    by (rule gsub_no_match, rule no_search_on_cdf [OF no_timestamp_match cdf])
  have s2: "replace_all flags_none hex_literal_re hex_placeholder ?y = ?y"
    unfolding replace_all_def using assms(1) by (intro gsub_no_match) (simp only: re_test_def not_not)
  have s3: "replace_all flags_none hash_token_re sha_placeholder ?y = ?y"
    unfolding replace_all_def using assms(2) by (intro gsub_no_match) (simp only: re_test_def not_not)
  have s4: "replace_all flags_none line_col_re (js '':<line>:<col>'') ?y = ?y"
    unfolding replace_all_def
    by (rule gsub_no_match, rule no_search_on_cdf [OF no_line_col_match cdf])
  have s5: "replace_all flags_none line_re (js '':<line>'') ?y = ?y"
    unfolding replace_all_def
    by (rule gsub_no_match, rule no_search_on_cdf [OF no_line_match cdf])
  have t: "trim ?y = ?y"
  proof -
    have "\<exists>z. ?y = trim z" unfolding normalize_line_def by blast
    then show ?thesis using trim_trim by metis
  qed
  have "normalize_line ?y = trim ?y"
    by (subst normalize_line_def) (simp only: s1 s2 s3 s4 s5)
  then show ?thesis using t by simp
qed

theorem normalize_idempotent_without_tokens_witness:
  "\<not> re_test flags_none hex_literal_re (normalize_line (js ''src/a.ts:12:4 error Foo'')) \<and>
   \<not> re_test flags_none hash_token_re (normalize_line (js ''src/a.ts:12:4 error Foo'')) \<and>
   normalize_line (normalize_line (js ''src/a.ts:12:4 error Foo'')) =
     js ''src/a.ts:<line>:<col> error Foo''"
proof -
  have n: "normalize_line (js ''src/a.ts:12:4 error Foo'') = js ''src/a.ts:<line>:<col> error Foo''"
    by (simp add: norm_eval)
  have h1: "\<not> re_test flags_none hex_literal_re (normalize_line (js ''src/a.ts:12:4 error Foo''))"
    unfolding n by (simp add: hex_literal_re_def re_eval)
  have h2: "\<not> re_test flags_none hash_token_re (normalize_line (js ''src/a.ts:12:4 error Foo''))"
    unfolding n by (simp add: hash_token_re_def re_eval)
  show ?thesis
    using normalize_idempotent_without_tokens [OF h1 h2] h1 h2 n by simp
qed

section \<open>Properties of the quiet-period sweep\<close>

lemmas store_eval = bind_def ret_def api_search_issues_def api_get_def api_update_def
  api_create_comment_def api_list_labels_def api_remove_label_def api_add_labels_def
  api_create_def api_search_pulls_def find_issue_def map_issue_def fresh_number_def

lemmas tracker_eval = parseOccurrenceTimestamps_def bullet_re_def computeWindowStats_def
  date_ge_def date_gt_def stats_re_def occurrences_line_start_re_def appendStatsLine_def
  applySeverityLabel_def findFixingPR_def latest_def close_message_def sweep_item_def
  autoCloseQuietIssues_def occurrences_heading_re_def occurrences_insert_re_def
  occurrence_tail_def recurrence_comment_def upsert_found_def upsertIssueForSignature_def
  replace_first_def show_nat_def show_number_def js_to_string_def nl_def em_dash_def
  ISSUE_MARKER_def classifySeverity_def obj_get_def js_or_def BASE_SEVERITY_def
  object_prototype_keys_def

lemmas example_eval = ex_sig_def ex_hash_def ex_dates_def ex_env_def ex_occ_def
  empty_store_def ex_label_def ex_body_def ex_record_def ex_store_def stale_record_def
  stale_store_def failing_env_def

lemma unchanged_except_refl: "unchanged_except n st st"
  by (simp add: unchanged_except_def)

lemma unchanged_except_trans:
  "unchanged_except n st st' \<Longrightarrow> unchanged_except n st' st'' \<Longrightarrow> unchanged_except n st st''"
  by (simp add: unchanged_except_def)

lemma unchanged_except_map_issue:
  assumes "\<And>i. number (f i) = number i"
  shows "unchanged_except n st (map_issue n f st)"
proof -
  have "filter (\<lambda>i. number i \<noteq> n) (map (\<lambda>i. if number i = n then f i else i) xs) =
        filter (\<lambda>i. number i \<noteq> n) xs" for xs
    using assms by (induction xs) auto
  then show ?thesis by (simp add: unchanged_except_def map_issue_def)
qed

lemma unchanged_bind:
  assumes "unchanged_except n st (snd (m st))"
      and "\<And>x s. unchanged_except n s (snd (f x s))"
  shows "unchanged_except n st (snd (bind m f st))"
proof (cases "m st")
  case (Pair r st')
  show ?thesis
  proof (cases r)
    case (Inl e)
    then show ?thesis using Pair assms(1) by (simp add: bind_def)
  next
    case (Inr x)
    have "unchanged_except n st st'" using assms(1) Pair by simp
    moreover have "unchanged_except n st' (snd (f x st'))" by (rule assms(2))
    ultimately have "unchanged_except n st (snd (f x st'))"
      by (rule unchanged_except_trans)
    then show ?thesis using Pair Inr by (simp add: bind_def)
  qed
qed

lemma unchanged_ret: "unchanged_except n st (snd (ret x st))"
  by (simp add: ret_def unchanged_except_refl)

lemma unchanged_get: "unchanged_except n st (snd (api_get e n st))"
  by (simp add: api_get_def ret_def unchanged_except_refl split: option.splits)

lemma unchanged_search_pulls: "unchanged_except n st (snd (api_search_pulls e k t p st))"
  by (simp add: api_search_pulls_def ret_def unchanged_except_refl)

lemma unchanged_comment: "unchanged_except n st (snd (api_create_comment e n t st))"
  by (simp add: api_create_comment_def ret_def unchanged_except_refl
      unchanged_except_map_issue split: option.splits)

lemma unchanged_update:
  "(\<And>i. number (f i) = number i) \<Longrightarrow> unchanged_except n st (snd (api_update e n f st))"
  by (simp add: api_update_def ret_def unchanged_except_refl
      unchanged_except_map_issue split: option.splits)

lemma unchanged_findFixingPR: "unchanged_except n st (snd (findFixingPR e n st))"
  unfolding findFixingPR_def
  by (intro unchanged_bind unchanged_search_pulls unchanged_ret)

lemma unchanged_sweep_item:
  "unchanged_except (number item) st (snd (sweep_item e cutoff item st))"
  unfolding sweep_item_def Let_def
  apply (rule unchanged_bind)
   apply (rule unchanged_get)
  apply (simp only: split: if_splits)
  apply (intro conjI impI unchanged_ret unchanged_bind unchanged_findFixingPR
      unchanged_comment unchanged_update)
  apply simp
  done

lemma sweep_loop_append:
  "sweep_loop e cutoff (pre @ rest) closed st =
     (case sweep_loop e cutoff pre closed st of
        (Inl err, st') \<Rightarrow> (Inl err, st')
      | (Inr closed', st') \<Rightarrow> sweep_loop e cutoff rest closed' st')"
proof (induction pre arbitrary: closed st)
  case Nil
  then show ?case by (simp add: ret_def)
next
  case (Cons item pre)
  show ?case
  proof (cases "sweep_item e cutoff item st")
    case (Pair r st')
    then show ?thesis using Cons.IH
      by (cases r) (auto split: option.splits)
  qed
qed

lemma sweep_item_quiet:
  assumes nf: "\<not> faulty e (IssuesGet n)" "\<not> faulty e (SearchPulls n)"
              "\<not> faulty e (IssuesCreateComment n)"
      and nitem: "number item = n"
      and fi: "find_issue st n = Some iss"
      and ts: "parseOccurrenceTimestamps e (body iss) = [Some t]"
      and old: "t < cutoff"
      and np: "pulls st = []"
      and st1: "st1 = map_issue n (\<lambda>i. i\<lparr>comments := comments i @
                  [close_message (Some ((now e - t) div 86400000)) []]\<rparr>) st"
      and fi1: "find_issue st1 n = Some issc"
  shows "sweep_item e cutoff item st =
     (if faulty e (IssuesUpdate n) then (Inl (RequestFailed (IssuesUpdate n)), st1)
      else (Inr (Some n), map_issue n (\<lambda>i. i\<lparr>state := Closed\<rparr>) st1))"
proof -
  have g: "api_get e n st = (Inr iss, st)" using nf(1) fi by (simp add: api_get_def ret_def)
  have l: "latest [Some t] = Some t" by (simp add: latest_def)
  have c: "\<not> date_ge (Some t) cutoff" using old by (simp add: date_ge_def)
  have p: "findFixingPR e n st = (Inr [], st)"
    using nf(2) np by (simp add: findFixingPR_def api_search_pulls_def bind_def ret_def)
  have m: "api_create_comment e n (close_message (Some ((now e - t) div 86400000)) []) st =
           (Inr (), st1)"
    using nf(3) fi by (simp add: api_create_comment_def ret_def st1)
  have u: "api_update e n (\<lambda>i. i\<lparr>state := Closed\<rparr>) st1 =
           (if faulty e (IssuesUpdate n) then (Inl (RequestFailed (IssuesUpdate n)), st1)
            else (Inr (), map_issue n (\<lambda>i. i\<lparr>state := Closed\<rparr>) st1))"
    using fi1 by (simp add: api_update_def ret_def)
  show ?thesis
    unfolding sweep_item_def nitem bind_def g prod.case sum.case Let_def ts l
    using c by (simp add: p m u ret_def)
qed

lemma stale_timestamps:
  "parseOccurrenceTimestamps failing_update_env (body (stale_record n)) = [Some 1790812800000]"
  by (simp add: parseOccurrenceTimestamps_def bullet_re_def failing_update_env_def ex_env_def
        ex_dates_def stale_record_def nl_def em_dash_def re_eval)

lemma stale_number: "number (stale_record n) = n"
  by (simp add: stale_record_def)

lemma stale_days: "(now failing_update_env - 1790812800000) div 86400000 = 33"
  by (simp add: failing_update_env_def ex_env_def)

lemma sweep_first_closed:
  "sweep_item failing_update_env (now failing_update_env - 30 * 86400000) (stale_record 1)
     stale_batch =
   (Inr (Some 1), \<lparr>issues = [closed_record 1, stale_record 2, stale_record 3], pulls = []\<rparr>)"
proof -
  have "sweep_item failing_update_env (now failing_update_env - 30 * 86400000) (stale_record 1)
          stale_batch =
        (if faulty failing_update_env (IssuesUpdate 1)
         then (Inl (RequestFailed (IssuesUpdate 1)),
               \<lparr>issues = [commented_record 1, stale_record 2, stale_record 3], pulls = []\<rparr>)
         else (Inr (Some 1), map_issue 1 (\<lambda>i. i\<lparr>state := Closed\<rparr>)
               \<lparr>issues = [commented_record 1, stale_record 2, stale_record 3], pulls = []\<rparr>))"
  proof (rule sweep_item_quiet [where iss = "stale_record 1" and issc = "commented_record 1"])
    show "\<not> faulty failing_update_env (IssuesGet 1)"
      "\<not> faulty failing_update_env (SearchPulls 1)"
      "\<not> faulty failing_update_env (IssuesCreateComment 1)"
      by (simp_all add: failing_update_env_def)
    show "number (stale_record 1) = 1" by (rule stale_number)
    show "find_issue stale_batch 1 = Some (stale_record 1)"
      by (simp add: find_issue_def stale_batch_def stale_number)
    show "parseOccurrenceTimestamps failing_update_env (body (stale_record 1)) =
          [Some 1790812800000]" by (rule stale_timestamps)
    show "(1790812800000::int) < now failing_update_env - 30 * 86400000"
      by (simp add: failing_update_env_def ex_env_def)
    show "pulls stale_batch = []" by (simp add: stale_batch_def)
    show "\<lparr>issues = [commented_record 1, stale_record 2, stale_record 3], pulls = []\<rparr> =
          map_issue 1 (\<lambda>i. i\<lparr>comments := comments i @
            [close_message (Some ((now failing_update_env - 1790812800000) div 86400000)) []]\<rparr>)
            stale_batch"
      unfolding stale_days
      by (simp add: map_issue_def stale_batch_def stale_number commented_record_def)
         (simp add: stale_record_def)
    show "find_issue \<lparr>issues = [commented_record 1, stale_record 2, stale_record 3], pulls = []\<rparr> 1
          = Some (commented_record 1)"
      by (simp add: find_issue_def commented_record_def stale_number)
  qed
  then show ?thesis
    by (simp add: failing_update_env_def map_issue_def closed_record_def commented_record_def
          stale_number)
qed

lemma sweep_second_fails:
  "sweep_item failing_update_env (now failing_update_env - 30 * 86400000) (stale_record 2)
     \<lparr>issues = [closed_record 1, stale_record 2, stale_record 3], pulls = []\<rparr> =
   (Inl (RequestFailed (IssuesUpdate 2)),
    \<lparr>issues = [closed_record 1, commented_record 2, stale_record 3], pulls = []\<rparr>)"
proof -
  let ?st = "\<lparr>issues = [closed_record 1, stale_record 2, stale_record 3], pulls = []\<rparr>"
  let ?st1 = "\<lparr>issues = [closed_record 1, commented_record 2, stale_record 3], pulls = []\<rparr>"
  have n1: "\<And>n. number (closed_record n) = n" "\<And>n. number (commented_record n) = n"
    by (simp_all add: closed_record_def commented_record_def stale_number)
  have "sweep_item failing_update_env (now failing_update_env - 30 * 86400000) (stale_record 2)
          ?st =
        (if faulty failing_update_env (IssuesUpdate 2)
         then (Inl (RequestFailed (IssuesUpdate 2)), ?st1)
         else (Inr (Some 2), map_issue 2 (\<lambda>i. i\<lparr>state := Closed\<rparr>) ?st1))"
  proof (rule sweep_item_quiet [where iss = "stale_record 2" and issc = "commented_record 2"])
    show "\<not> faulty failing_update_env (IssuesGet 2)"
      "\<not> faulty failing_update_env (SearchPulls 2)"
      "\<not> faulty failing_update_env (IssuesCreateComment 2)"
      by (simp_all add: failing_update_env_def)
    show "number (stale_record 2) = 2" by (rule stale_number)
    show "find_issue ?st 2 = Some (stale_record 2)"
      by (simp add: find_issue_def n1 stale_number)
    show "parseOccurrenceTimestamps failing_update_env (body (stale_record 2)) =
          [Some 1790812800000]" by (rule stale_timestamps)
    show "(1790812800000::int) < now failing_update_env - 30 * 86400000"
      by (simp add: failing_update_env_def ex_env_def)
    show "pulls ?st = []" by simp
    show "?st1 =
          map_issue 2 (\<lambda>i. i\<lparr>comments := comments i @
            [close_message (Some ((now failing_update_env - 1790812800000) div 86400000)) []]\<rparr>)
            ?st"
      unfolding stale_days
      by (simp add: map_issue_def n1 stale_number commented_record_def)
         (simp add: stale_record_def)
    show "find_issue ?st1 2 = Some (commented_record 2)"
      by (simp add: find_issue_def n1)
  qed
  then show ?thesis by (simp add: failing_update_env_def)
qed

text \<open>
  Claim C4, as amended. The sweep has no isolation per record: for every sweep over a batch
  of open records, a failure while processing one record (the get, the search for fixing
  pull requests, the comment or the close) ends the sweep with that error. The records
  before it in the batch have been processed, the store is as the failing record's
  processing left it, and no record after it is processed: every record other than the
  failing one is as it was when that record's turn came.
\<close>

theorem sweep_aborts_at_first_failure:
  assumes "0 < quietDays"
      and "api_search_issues e None label (Some Open) 50 st = (Inr (pre @ item # post), st)"
      and "sweep_loop e (now e - quietDays * 86400000) pre [] st = (Inr closed1, st1)"
      and "sweep_item e (now e - quietDays * 86400000) item st1 = (Inl err, st2)"
  shows "autoCloseQuietIssues e label quietDays st = (Inl err, st2) \<and>
         unchanged_except (number item) st1 st2"
proof -
  have "sweep_loop e (now e - quietDays * 86400000) (pre @ item # post) [] st = (Inl err, st2)"
    using assms(3,4) by (simp add: sweep_loop_append)
  then have "autoCloseQuietIssues e label quietDays st = (Inl err, st2)"
    using assms(1,2) by (simp add: autoCloseQuietIssues_def bind_def)
  moreover have "unchanged_except (number item) st1 st2"
    using unchanged_sweep_item [of item st1 e "now e - quietDays * 86400000"] assms(4) by simp
  ultimately show ?thesis by simp
qed

theorem sweep_aborts_at_first_failure_witness:
  "(0::int) < 30 \<and>
   api_search_issues failing_update_env None ex_label (Some Open) 50 stale_batch =
     (Inr ([stale_record 1] @ stale_record 2 # [stale_record 3]), stale_batch) \<and>
   sweep_loop failing_update_env (now failing_update_env - 30 * 86400000) [stale_record 1] []
       stale_batch =
     (Inr [1], \<lparr>issues = [closed_record 1, stale_record 2, stale_record 3], pulls = []\<rparr>) \<and>
   sweep_item failing_update_env (now failing_update_env - 30 * 86400000) (stale_record 2)
       \<lparr>issues = [closed_record 1, stale_record 2, stale_record 3], pulls = []\<rparr> =
     (Inl (RequestFailed (IssuesUpdate 2)),
      \<lparr>issues = [closed_record 1, commented_record 2, stale_record 3], pulls = []\<rparr>) \<and>
   autoCloseQuietIssues failing_update_env ex_label 30 stale_batch =
     (Inl (RequestFailed (IssuesUpdate 2)),
      \<lparr>issues = [closed_record 1, commented_record 2, stale_record 3], pulls = []\<rparr>) \<and>
   unchanged_except 2
     \<lparr>issues = [closed_record 1, stale_record 2, stale_record 3], pulls = []\<rparr>
     \<lparr>issues = [closed_record 1, commented_record 2, stale_record 3], pulls = []\<rparr> \<and>
   map state [closed_record 1, commented_record 2, stale_record 3] = [Closed, Open, Open]"
proof -
  have h1: "(0::int) < 30" by simp
  have h2: "api_search_issues failing_update_env None ex_label (Some Open) 50 stale_batch =
     (Inr ([stale_record 1] @ stale_record 2 # [stale_record 3]), stale_batch)"
    by (simp add: api_search_issues_def ret_def failing_update_env_def ex_env_def stale_batch_def
        stale_record_def)
  have h3: "sweep_loop failing_update_env (now failing_update_env - 30 * 86400000)
       [stale_record 1] [] stale_batch =
     (Inr [1], \<lparr>issues = [closed_record 1, stale_record 2, stale_record 3], pulls = []\<rparr>)"
    unfolding sweep_loop.simps sweep_first_closed prod.case sum.case option.case
    by (simp add: ret_def)
  note h4 = sweep_second_fails
  have s: "map state [closed_record 1, commented_record 2, stale_record 3] = [Closed, Open, Open]"
    by (simp add: closed_record_def commented_record_def stale_record_def)
  have n: "number (stale_record 2) = 2" by (rule stale_number)
  show ?thesis
    using sweep_aborts_at_first_failure [OF h1 h2 h3 h4] h1 h2 h3 h4 s
    unfolding n by blast
qed

text \<open>
  Claim C4 as stated fails: of two stale open records, reading the first fails. The sweep
  returns the error and leaves the second record open, although processing the second
  record alone succeeds and closes it.
\<close>

theorem sweep_failure_aborts_counterexample:
  "autoCloseQuietIssues failing_env ex_label 30 stale_store =
     (Inl (RequestFailed (IssuesGet 1)), stale_store) \<and>
   map state (issues stale_store) = [Open, Open] \<and>
   fst (sweep_item failing_env (now failing_env - 30 * 86400000) (stale_record 2) stale_store) =
     Inr (Some 2)"
proof -
  have a: "autoCloseQuietIssues failing_env ex_label 30 stale_store =
     (Inl (RequestFailed (IssuesGet 1)), stale_store)"
    by (simp add: autoCloseQuietIssues_def sweep_item_def bind_def ret_def api_get_def
        api_search_issues_def failing_env_def ex_env_def stale_store_def stale_record_def)
  have b: "map state (issues stale_store) = [Open, Open]"
    by (simp add: stale_store_def stale_record_def)
  have p: "parseOccurrenceTimestamps failing_env (body (stale_record 2)) = [Some 1790812800000]"
    by (simp add: parseOccurrenceTimestamps_def bullet_re_def failing_env_def ex_env_def
        ex_dates_def stale_record_def nl_def em_dash_def re_eval)
  have g: "api_get failing_env 2 stale_store = (Inr (stale_record 2), stale_store)"
    by (simp add: api_get_def find_issue_def ret_def failing_env_def ex_env_def stale_store_def
        stale_record_def)
  have c: "fst (sweep_item failing_env (now failing_env - 30 * 86400000) (stale_record 2)
              stale_store) = Inr (Some 2)"
    unfolding sweep_item_def
    apply (simp add: bind_def g p Let_def stale_record_def [of 2, THEN arg_cong [of _ _ number]])
    apply (simp add: latest_def date_ge_def failing_env_def ex_env_def findFixingPR_def bind_def
        ret_def api_search_pulls_def api_create_comment_def api_update_def find_issue_def
        map_issue_def stale_store_def stale_record_def)
    done
  show ?thesis using a b c by simp
qed

section \<open>Properties of the upsert\<close>

lemma find_issue_map_same:
  assumes "find_issue st n = Some i" and "number (f i) = n"
  shows "find_issue (map_issue n f st) n = Some (f i)"
proof -
  have "List.find (\<lambda>i. number i = n) xs = Some i \<Longrightarrow>
        List.find (\<lambda>i. number i = n) (map (\<lambda>i. if number i = n then f i else i) xs) = Some (f i)"
    for xs
  proof (induction xs)
    case Nil
    then show ?case by simp
  next
    case (Cons x xs)
    then show ?case using assms(2) by (auto split: if_splits)
  qed
  then show ?thesis using assms(1) by (simp add: find_issue_def map_issue_def)
qed

lemma find_issue_number: "find_issue st n = Some i \<Longrightarrow> number i = n"
  by (auto simp: find_issue_def find_Some_iff)

lemma map_issue_compose:
  assumes "\<And>x. number (f x) = number x"
  shows "map_issue n g (map_issue n f st) = map_issue n (g \<circ> f) st"
  using assms by (simp add: map_issue_def comp_def cong: if_cong)

lemma get_ok:
  "healthy e \<Longrightarrow> find_issue st n = Some i \<Longrightarrow> api_get e n st = (Inr i, st)"
  by (simp add: healthy_def api_get_def ret_def)

lemma update_ok:
  "healthy e \<Longrightarrow> find_issue st n = Some i \<Longrightarrow>
   api_update e n f st = (Inr (), map_issue n f st)"
  by (simp add: healthy_def api_update_def ret_def)

lemma comment_ok:
  "healthy e \<Longrightarrow> find_issue st n = Some i \<Longrightarrow>
   api_create_comment e n t st =
     (Inr (), map_issue n (\<lambda>i. i\<lparr>comments := comments i @ [t]\<rparr>) st)"
  by (simp add: healthy_def api_create_comment_def ret_def)

lemma list_labels_ok:
  "healthy e \<Longrightarrow> find_issue st n = Some i \<Longrightarrow>
   api_list_labels e n st = (Inr (take 100 (labels i)), st)"
  by (simp add: healthy_def api_list_labels_def ret_def)

lemma remove_label_ok:
  "healthy e \<Longrightarrow> find_issue st n = Some i \<Longrightarrow>
   api_remove_label e n l st =
     (Inr (), map_issue n (\<lambda>i. i\<lparr>labels := removeAll l (labels i)\<rparr>) st)"
  by (simp add: healthy_def api_remove_label_def ret_def)

lemma add_labels_ok:
  "healthy e \<Longrightarrow> find_issue st n = Some i \<Longrightarrow>
   api_add_labels e n ls st =
     (Inr (), map_issue n
        (\<lambda>i. i\<lparr>labels := labels i @ filter (\<lambda>l. l \<notin> set (labels i)) (remdups ls)\<rparr>) st)"
  by (simp add: healthy_def api_add_labels_def ret_def)

lemma labels_only_id: "labels_only (\<lambda>x. x)"
  by (simp add: labels_only_def)

lemma labels_only_comp: "labels_only f \<Longrightarrow> labels_only g \<Longrightarrow> labels_only (g \<circ> f)"
  unfolding labels_only_def comp_def by (intro allI conjI ballI impI) simp_all

lemma labels_only_remove:
  "starts_with l (js ''severity:'') \<Longrightarrow> labels_only (\<lambda>i. i\<lparr>labels := removeAll l (labels i)\<rparr>)"
  by (auto simp: labels_only_def)

lemma labels_only_add:
  "labels_only (\<lambda>i. i\<lparr>labels := labels i @ filter (\<lambda>l. l \<notin> set (labels i)) (remdups ls)\<rparr>)"
  by (auto simp: labels_only_def)

lemma map_issue_id: "map_issue n (\<lambda>x. x) st = st"
  by (simp add: map_issue_def)

lemma remove_fold:
  assumes h: "healthy e" and i: "find_issue st n = Some i"
  shows "\<forall>l \<in> set ls. starts_with l (js ''severity:'') \<Longrightarrow>
         m st = (Inr (), map_issue n f st) \<Longrightarrow> labels_only f \<Longrightarrow>
         \<exists>f'. fold (\<lambda>l m. bind m (\<lambda>_. api_remove_label e n l)) ls m st =
                 (Inr (), map_issue n f' st) \<and> labels_only f'"
proof (induction ls arbitrary: m f)
  case Nil
  then show ?case by auto
next
  case (Cons l ls)
  let ?g = "\<lambda>i. i\<lparr>labels := removeAll l (labels i)\<rparr>"
  have nf: "\<And>x. number (f x) = number x" using Cons.prems(3) by (simp add: labels_only_def)
  have "number (f i) = n" using nf find_issue_number [OF i] by simp
  then have fi: "find_issue (map_issue n f st) n = Some (f i)"
    using i by (intro find_issue_map_same)
  have "bind m (\<lambda>_. api_remove_label e n l) st =
        (Inr (), map_issue n ?g (map_issue n f st))"
    using Cons.prems(2) remove_label_ok [OF h fi] by (simp add: bind_def)
  then have step: "bind m (\<lambda>_. api_remove_label e n l) st = (Inr (), map_issue n (?g \<circ> f) st)"
    using nf by (simp add: map_issue_compose)
  have lo: "labels_only (?g \<circ> f)"
    using Cons.prems(1,3) by (intro labels_only_comp labels_only_remove) simp_all
  have "\<exists>f'. fold (\<lambda>l m. bind m (\<lambda>_. api_remove_label e n l)) ls
                (bind m (\<lambda>_. api_remove_label e n l)) st =
              (Inr (), map_issue n f' st) \<and> labels_only f'"
  proof -
    have p: "\<forall>l \<in> set ls. starts_with l (js ''severity:'')" using Cons.prems(1) by simp
    show ?thesis
      by (rule Cons.IH [of "bind m (\<lambda>_. api_remove_label e n l)" "?g \<circ> f", OF p step lo])
  qed
  then show ?case by simp
qed

lemma applySeverityLabel_ok:
  assumes h: "healthy e" and i: "find_issue st n = Some i"
  shows "\<exists>f. applySeverityLabel e n sev st = (Inr (), map_issue n f st) \<and> labels_only f"
proof -
  let ?prefix = "js ''severity:''"
  let ?target = "?prefix @ js_to_string sev"
  let ?lbls = "take 100 (labels i)"
  let ?stale = "filter (\<lambda>l. starts_with l ?prefix \<and> l \<noteq> ?target) ?lbls"
  have ll: "api_list_labels e n st = (Inr ?lbls, st)" by (rule list_labels_ok [OF h i])
  have "\<forall>l \<in> set ?stale. starts_with l ?prefix" by simp
  moreover have "ret () st = (Inr (), map_issue n (\<lambda>x. x) st)"
    by (simp add: ret_def map_issue_id)
  ultimately obtain f1 where f1:
      "fold (\<lambda>l m. bind m (\<lambda>_. api_remove_label e n l)) ?stale (ret ()) st =
         (Inr (), map_issue n f1 st)" "labels_only f1"
    using remove_fold [OF h i, of ?stale "ret ()" "\<lambda>x. x"] labels_only_id by blast
  have nf: "\<And>x. number (f1 x) = number x" using f1(2) by (simp add: labels_only_def)
  then have "number (f1 i) = n" using find_issue_number [OF i] by simp
  then have fi: "find_issue (map_issue n f1 st) n = Some (f1 i)"
    using i by (intro find_issue_map_same)
  show ?thesis
  proof (cases "?target \<in> set ?lbls")
    case True
    then have "applySeverityLabel e n sev st = (Inr (), map_issue n f1 st)"
      using ll f1(1) by (simp add: applySeverityLabel_def bind_def ret_def Let_def)
    then show ?thesis using f1(2) by blast
  next
    case False
    let ?g = "\<lambda>i. i\<lparr>labels := labels i @ filter (\<lambda>l. l \<notin> set (labels i)) (remdups [?target])\<rparr>"
    have "applySeverityLabel e n sev st = (Inr (), map_issue n ?g (map_issue n f1 st))"
      using False ll f1(1) add_labels_ok [OF h fi, of "[?target]"]
      by (simp add: applySeverityLabel_def bind_def Let_def)
    then have "applySeverityLabel e n sev st = (Inr (), map_issue n (?g \<circ> f1) st)"
      using nf by (simp add: map_issue_compose)
    moreover have "labels_only (?g \<circ> f1)"
      using f1(2) by (intro labels_only_comp labels_only_add)
    ultimately show ?thesis by blast
  qed
qed

lemma upsert_found_ok:
  assumes h: "healthy e" and i: "find_issue st (number item) = Some iss"
  shows "\<exists>res F. upsert_found e item occ rn nt st = (Inr res, map_issue (number item) F st) \<and>
     kind res = (if state item = Closed then Reopened else Updated) \<and>
     issueNumber res = number item \<and>
     muted res = (js ''muted'' \<in> set (labels item)) \<and>
     totalOccurrences res =
       length (parseOccurrenceTimestamps e
                 (body_with_occurrence (js ''muted'' \<in> set (labels item)) occ (body iss))) \<and>
     severity res =
       classifySeverity rn (last7 (computeWindowStats
         (parseOccurrenceTimestamps e
            (body_with_occurrence (js ''muted'' \<in> set (labels item)) occ (body iss))) (now e))) \<and>
     thresholdReached res =
       (nt > 0 \<and> totalOccurrences res \<ge> nt \<and> js ''threshold-reached'' \<notin> set (labels item)) \<and>
     update_effect (state item = Closed) F \<and>
     (thresholdReached res \<longrightarrow> (\<forall>x. js ''threshold-reached'' \<in> set (labels (F x)))) \<and>
     (\<forall>x. body (F x) =
        appendStatsLine (body_with_occurrence (js ''muted'' \<in> set (labels item)) occ (body iss))
          (computeWindowStats
             (parseOccurrenceTimestamps e
                (body_with_occurrence (js ''muted'' \<in> set (labels item)) occ (body iss)))
             (now e)))"
proof -
  define n where "n = number item"
  define wc where "wc = (state item = Closed)"
  define mu where "mu = (js ''muted'' \<in> set (labels item))"
  define ts where "ts = parseOccurrenceTimestamps e (body_with_occurrence mu occ (body iss))"
  define nb where "nb = appendStatsLine (body_with_occurrence mu occ (body iss))
                          (computeWindowStats ts (now e))"
  define sev where "sev = classifySeverity rn (last7 (computeWindowStats ts (now e)))"
  define f1 where "f1 = (\<lambda>i::issue. if wc then i\<lparr>body := nb, state := Open\<rparr> else i\<lparr>body := nb\<rparr>)"
  define f2 where "f2 = (\<lambda>i::issue. if wc then i\<lparr>comments := comments i @ [recurrence_comment]\<rparr> else i)"
  define cond where "cond = (nt > 0 \<and> length ts \<ge> nt \<and> js ''threshold-reached'' \<notin> set (labels item))"
  define f4 where "f4 = (\<lambda>i::issue. if cond
      then i\<lparr>labels := labels i @
              filter (\<lambda>l. l \<notin> set (labels i)) (remdups [js ''threshold-reached''])\<rparr>
      else i)"
  define res where "res = \<lparr>kind = (if wc then Reopened else Updated), issueNumber = n,
               url = html_url item, severity = sev, muted = mu,
               totalOccurrences = length ts, thresholdReached = cond\<rparr>"
  have i': "find_issue st n = Some iss" using i by (simp add: n_def)
  have ni: "number iss = n" using find_issue_number [OF i'] .
  have p1: "\<And>x. number (f1 x) = number x" by (simp add: f1_def)
  have p2: "\<And>x. number (f2 x) = number x" by (simp add: f2_def)
  have p4: "\<And>x. number (f4 x) = number x" by (simp add: f4_def)
  have s0: "api_get e n st = (Inr iss, st)" by (rule get_ok [OF h i'])
  define st1 where "st1 = map_issue n f1 st"
  have s1: "api_update e n f1 st = (Inr (), st1)"
    unfolding st1_def by (rule update_ok [OF h i'])
  have i1: "find_issue st1 n = Some (f1 iss)"
    unfolding st1_def using i' ni p1 by (intro find_issue_map_same) simp_all
  define st2 where "st2 = map_issue n f2 st1"
  have s2: "(if wc then api_create_comment e n recurrence_comment else ret ()) st1 =
            (Inr (), st2)"
  proof (cases wc)
    case True
    then have "f2 = (\<lambda>i. i\<lparr>comments := comments i @ [recurrence_comment]\<rparr>)"
      by (simp add: f2_def)
    then show ?thesis using True comment_ok [OF h i1, of recurrence_comment]
      by (simp add: st2_def)
  next
    case False
    then have "f2 = (\<lambda>i. i)" by (simp add: f2_def)
    then show ?thesis using False by (simp add: st2_def ret_def map_issue_id)
  qed
  have i2: "find_issue st2 n = Some (f2 (f1 iss))"
    unfolding st2_def using i1 ni p1 p2 by (intro find_issue_map_same) simp_all
  obtain f3 where s3: "applySeverityLabel e n sev st2 = (Inr (), map_issue n f3 st2)"
      and l3: "labels_only f3"
    using applySeverityLabel_ok [OF h i2] by blast
  define st3 where "st3 = map_issue n f3 st2"
  have p3: "\<And>x. number (f3 x) = number x" using l3 by (simp add: labels_only_def)
  have i3: "find_issue st3 n = Some (f3 (f2 (f1 iss)))"
    unfolding st3_def using i2 ni p1 p2 p3 by (intro find_issue_map_same) simp_all
  define st4 where "st4 = map_issue n f4 st3"
  have s4: "(if cond then bind (api_add_labels e n [js ''threshold-reached'']) (\<lambda>_. ret True)
             else ret False) st3 = (Inr cond, st4)"
  proof (cases cond)
    case True
    then have "f4 = (\<lambda>i. i\<lparr>labels := labels i @
              filter (\<lambda>l. l \<notin> set (labels i)) (remdups [js ''threshold-reached''])\<rparr>)"
      by (simp add: f4_def)
    then show ?thesis
      using True add_labels_ok [OF h i3, of "[js ''threshold-reached'']"]
      by (simp add: st4_def bind_def ret_def del: remdups.simps)
  next
    case False
    then have "f4 = (\<lambda>i. i)" by (simp add: f4_def)
    then show ?thesis using False by (simp add: st4_def ret_def map_issue_id)
  qed
  define F where "F = f4 \<circ> (f3 \<circ> (f2 \<circ> f1))"
  have c12: "st2 = map_issue n (f2 \<circ> f1) st"
    unfolding st2_def st1_def by (rule map_issue_compose) (rule p1)
  have c123: "st3 = map_issue n (f3 \<circ> (f2 \<circ> f1)) st"
    unfolding st3_def c12 by (rule map_issue_compose) (simp add: p1 p2)
  have c: "st4 = map_issue n F st"
    unfolding st4_def c123 F_def by (rule map_issue_compose) (simp add: p1 p2 p3)
  have run: "upsert_found e item occ rn nt st = (Inr res, st4)"
    unfolding upsert_found_def Let_def bind_def
      n_def [symmetric] wc_def [symmetric] mu_def [symmetric]
    unfolding s0 prod.case sum.case ts_def [symmetric]
    unfolding nb_def [symmetric] sev_def [symmetric] f1_def [symmetric]
    unfolding s1 prod.case sum.case s2 st3_def [symmetric] s3
    unfolding cond_def [symmetric] prod.case sum.case res_def
    using s4 by (cases cond) (simp_all add: st3_def bind_def ret_def)
  have eff: "update_effect wc F"
    unfolding update_effect_def
  proof (intro allI conjI ballI impI)
    fix x
    show "number (F x) = number x" by (simp add: F_def p1 p2 p3 p4)
    show "title (F x) = title x"
      using l3 by (simp add: F_def labels_only_def f1_def f2_def f4_def)
    show "state (F x) = (if wc then Open else state x)"
      using l3 by (simp add: F_def labels_only_def f1_def f2_def f4_def)
    show "comments (F x) = comments x @ (if wc then [recurrence_comment] else [])"
      using l3 by (simp add: F_def labels_only_def f1_def f2_def f4_def)
  next
    fix x :: issue and l
    assume l: "l \<in> set (labels x)" "\<not> starts_with l (js ''severity:'')"
    have "labels (f2 (f1 x)) = labels x" by (simp add: f1_def f2_def)
    then have "l \<in> set (labels (f3 (f2 (f1 x))))"
      using l l3 unfolding labels_only_def by metis
    then show "l \<in> set (labels (F x))" by (simp add: F_def f4_def)
  qed
  have thr: "cond \<longrightarrow> (\<forall>x. js ''threshold-reached'' \<in> set (labels (F x)))"
    by (auto simp: F_def f4_def)
  have bd: "\<forall>x. body (F x) = nb"
    using l3 by (simp add: F_def labels_only_def f1_def f2_def f4_def)
  have "upsert_found e item occ rn nt st = (Inr res, map_issue (number item) F st) \<and>
     kind res = (if state item = Closed then Reopened else Updated) \<and>
     issueNumber res = number item \<and>
     muted res = (js ''muted'' \<in> set (labels item)) \<and>
     totalOccurrences res =
       length (parseOccurrenceTimestamps e
                 (body_with_occurrence (js ''muted'' \<in> set (labels item)) occ (body iss))) \<and>
     severity res =
       classifySeverity rn (last7 (computeWindowStats
         (parseOccurrenceTimestamps e
            (body_with_occurrence (js ''muted'' \<in> set (labels item)) occ (body iss))) (now e))) \<and>
     thresholdReached res =
       (nt > 0 \<and> totalOccurrences res \<ge> nt \<and> js ''threshold-reached'' \<notin> set (labels item)) \<and>
     update_effect (state item = Closed) F \<and>
     (thresholdReached res \<longrightarrow> (\<forall>x. js ''threshold-reached'' \<in> set (labels (F x)))) \<and>
     (\<forall>x. body (F x) =
        appendStatsLine (body_with_occurrence (js ''muted'' \<in> set (labels item)) occ (body iss))
          (computeWindowStats
             (parseOccurrenceTimestamps e
                (body_with_occurrence (js ''muted'' \<in> set (labels item)) occ (body iss)))
             (now e)))"
    using run c eff thr bd
    by (simp add: res_def n_def wc_def mu_def ts_def sev_def cond_def nb_def)
  then show ?thesis by blast
qed

lemma bind_ok: "m st = (Inr x, st') \<Longrightarrow> bind m f st = f x st'"
  by (simp add: bind_def)

lemma search_ok:
  assumes "healthy e"
  shows "api_search_issues e (Some h) label None k st =
     (Inr (take k (filter (carries h label) (issues st))), st)"
proof -
  have "carries h label = (\<lambda>i. js_includes (title i) h \<and> label \<in> set (labels i))"
    by (rule ext) (simp add: carries_def)
  then show ?thesis
    using assms by (simp add: healthy_def api_search_issues_def ret_def)
qed

lemma find_distinct:
  "distinct (map number xs) \<Longrightarrow> r \<in> set xs \<Longrightarrow>
   List.find (\<lambda>i. number i = number r) xs = Some r"
proof (induction xs)
  case Nil
  then show ?case by simp
next
  case (Cons x xs)
  show ?case
  proof (cases "x = r")
    case True
    then show ?thesis by simp
  next
    case False
    then have r: "r \<in> set xs" using Cons.prems(2) by simp
    then have "number x \<noteq> number r" using Cons.prems(1) by auto
    then show ?thesis using Cons r by simp
  qed
qed

lemma upsert_single_found:
  assumes h: "healthy e"
      and f: "filter (carries sigHash label) (issues st) = [r]"
      and d: "distinct (map number (issues st))"
  shows "upsertIssueForSignature e label sig sigHash occ rn nt st = upsert_found e r occ rn nt st \<and>
         find_issue st (number r) = Some r"
proof -
  have "r \<in> set (filter (carries sigHash label) (issues st))" using f by simp
  then have rin: "r \<in> set (issues st)" by simp
  have fi: "find_issue st (number r) = Some r"
    unfolding find_issue_def by (rule find_distinct [OF d rin])
  have s: "api_search_issues e (Some sigHash) label None 10 st = (Inr [r], st)"
    using search_ok [OF h, of sigHash label 10 st] f by simp
  show ?thesis
    unfolding upsertIssueForSignature_def
    using s by (simp add: ret_def bind_def fi)
qed

lemma carried_after_update:
  assumes f: "filter (carries sigHash label) (issues st) = [r]"
      and d: "distinct (map number (issues st))"
      and eff: "update_effect wc F"
      and lab: "\<not> starts_with label (js ''severity:'')"
  shows "filter (carries sigHash label) (issues (map_issue (number r) F st)) = [F r] \<and>
         distinct (map number (issues (map_issue (number r) F st)))"
proof -
  let ?g = "\<lambda>i. if number i = number r then F i else i"
  have "r \<in> set (filter (carries sigHash label) (issues st))" using f by simp
  then have rin: "r \<in> set (issues st)" and cr: "carries sigHash label r" by simp_all
  have same: "carries sigHash label (?g i) = carries sigHash label i" if "i \<in> set (issues st)" for i
  proof (cases "number i = number r")
    case False
    then show ?thesis by simp
  next
    case True
    then have "i = r" using d rin that by (meson distinct_map inj_onD)
    moreover have "carries sigHash label (F r)"
      using cr eff lab unfolding carries_def update_effect_def by auto
    ultimately show ?thesis using cr True by simp
  qed
  have "filter (carries sigHash label) (map ?g (issues st)) =
        map ?g (filter (carries sigHash label \<circ> ?g) (issues st))"
    by (simp add: filter_map)
  also have "filter (carries sigHash label \<circ> ?g) (issues st) =
             filter (carries sigHash label) (issues st)"
    by (rule filter_cong) (simp_all add: same)
  finally have a: "filter (carries sigHash label) (issues (map_issue (number r) F st)) = [F r]"
    using f by (simp add: map_issue_def)
  have "map number (map ?g (issues st)) = map number (issues st)"
    using eff by (simp add: update_effect_def)
  then have "distinct (map number (map ?g (issues st)))"
    using d by (simp only:)
  moreover have "issues (map_issue (number r) F st) = map ?g (issues st)"
    by (simp add: map_issue_def)
  ultimately have "distinct (map number (issues (map_issue (number r) F st)))"
    by (simp only:)
  then show ?thesis using a by simp
qed

lemma cn_refl: "closes_nothing st st"
  by (auto simp: closes_nothing_def)

lemma cn_trans:
  "closes_nothing st st' \<Longrightarrow> closes_nothing st' st'' \<Longrightarrow> closes_nothing st st''"
  unfolding closes_nothing_def by (metis)

lemma cn_map_issue:
  assumes "\<And>x. number (f x) = number x" and "\<And>x. state (f x) = Closed \<Longrightarrow> state x = Closed"
  shows "closes_nothing st (map_issue n f st)"
  unfolding closes_nothing_def map_issue_def using assms by (auto split: if_splits)

lemma cn_map_comments: "closes_nothing st (map_issue n (\<lambda>i. i\<lparr>comments := g i\<rparr>) st)"
  by (rule cn_map_issue) simp_all

lemma cn_map_labels: "closes_nothing st (map_issue n (\<lambda>i. i\<lparr>labels := g i\<rparr>) st)"
  by (rule cn_map_issue) simp_all

lemma cn_bind:
  assumes "closes_nothing st (snd (m st))"
      and "\<And>x s. closes_nothing s (snd (f x s))"
  shows "closes_nothing st (snd (bind m f st))"
proof (cases "m st")
  case (Pair r st')
  show ?thesis
  proof (cases r)
    case (Inl e)
    then show ?thesis using Pair assms(1) by (simp add: bind_def)
  next
    case (Inr x)
    have "closes_nothing st st'" using assms(1) Pair by simp
    moreover have "closes_nothing st' (snd (f x st'))" by (rule assms(2))
    ultimately have "closes_nothing st (snd (f x st'))" by (rule cn_trans)
    then show ?thesis using Pair Inr by (simp add: bind_def)
  qed
qed

lemma cn_ret: "closes_nothing st (snd (ret x st))"
  by (simp add: ret_def cn_refl)

lemma cn_search: "closes_nothing st (snd (api_search_issues e t l f k st))"
  by (simp add: api_search_issues_def ret_def cn_refl)

lemma cn_get: "closes_nothing st (snd (api_get e n st))"
  by (simp add: api_get_def ret_def cn_refl split: option.splits)

lemma cn_update:
  assumes "\<And>x. number (f x) = number x" and "\<And>x. state (f x) = Closed \<Longrightarrow> state x = Closed"
  shows "closes_nothing st (snd (api_update e n f st))"
  using cn_map_issue [of f, OF assms]
  by (simp add: api_update_def ret_def cn_refl split: option.splits)

lemma cn_comment: "closes_nothing st (snd (api_create_comment e n t st))"
  by (simp add: api_create_comment_def ret_def cn_refl cn_map_comments split: option.splits)

lemma cn_list: "closes_nothing st (snd (api_list_labels e n st))"
  by (simp add: api_list_labels_def ret_def cn_refl split: option.splits)

lemma cn_remove: "closes_nothing st (snd (api_remove_label e n l st))"
  by (simp add: api_remove_label_def ret_def cn_refl cn_map_labels split: option.splits)

lemma cn_add: "closes_nothing st (snd (api_add_labels e n ls st))"
  by (simp add: api_add_labels_def ret_def cn_refl cn_map_labels split: option.splits)

lemma cn_create: "closes_nothing st (snd (api_create e t b ls st))"
  by (auto simp: api_create_def ret_def cn_refl Let_def closes_nothing_def)

lemma cn_fold_remove:
  "(\<And>s. closes_nothing s (snd (m s))) \<Longrightarrow>
   closes_nothing st (snd (fold (\<lambda>l m. bind m (\<lambda>_. api_remove_label e n l)) ls m st))"
proof (induction ls arbitrary: m st)
  case Nil
  then show ?case by simp
next
  case (Cons l ls)
  have "\<And>s. closes_nothing s (snd (bind m (\<lambda>_. api_remove_label e n l) s))"
    by (intro cn_bind Cons.prems cn_remove)
  then show ?case using Cons.IH by simp
qed

lemma cn_applySeverityLabel: "closes_nothing st (snd (applySeverityLabel e n sev st))"
  unfolding applySeverityLabel_def Let_def
  apply (rule cn_bind)
   apply (rule cn_list)
  apply (rule cn_bind)
   apply (rule cn_fold_remove)
   apply (rule cn_ret)
  apply (simp add: cn_ret cn_add)
  done

lemma cn_upsert_found: "closes_nothing st (snd (upsert_found e item occ rn nt st))"
  unfolding upsert_found_def Let_def
  apply (rule cn_bind)
   apply (rule cn_get)
  apply (rule cn_bind)
   apply (rule cn_update)
    apply simp
   apply (simp split: if_splits)
  apply (rule cn_bind)
   apply (simp add: cn_ret cn_comment)
  apply (rule cn_bind)
   apply (rule cn_applySeverityLabel)
  apply (rule cn_bind)
   apply (simp add: cn_ret)
   apply (intro impI cn_bind cn_add cn_ret)
  apply (rule cn_ret)
  done

lemma cn_upsert:
  "closes_nothing st (snd (upsertIssueForSignature e label sig sigHash occ rn nt st))"
  unfolding upsertIssueForSignature_def Let_def
  apply (rule cn_bind)
   apply (rule cn_search)
  apply (rule cn_bind)
   apply (simp add: cn_ret)
   apply (intro impI cn_bind cn_search cn_ret)
  apply (simp split: list.splits)
  apply (intro conjI allI impI cn_upsert_found cn_bind cn_create cn_ret)
  done

text \<open>
  The update path on a closed record. When no request fails and the search for a fingerprint
  under the tracking label selects exactly one record, which is closed, the upsert opens that
  record, returns the decision reopened and appends the recurrence comment; every later
  upsert against that fingerprint returns updated. No upsert, whatever its environment and
  arguments, closes a record: every record closed afterwards was closed before. (The
  tracking label is not itself a severity label, which the label sync would remove.) The
  search selects a record only if its title holds the whole fingerprint.
\<close>

lemma reopen_when_found:
  assumes h: "healthy e"
      and f: "filter (carries sigHash label) (issues st) = [r]"
      and c: "state r = Closed"
      and d: "distinct (map number (issues st))"
      and lab: "\<not> starts_with label (js ''severity:'')"
  shows "(\<exists>res r' st'.
            upsertIssueForSignature e label sig sigHash occ ruleName nt st = (Inr res, st') \<and>
            kind res = Reopened \<and> issueNumber res = number r \<and>
            find_issue st' (number r) = Some r' \<and> state r' = Open \<and>
            comments r' = comments r @ [recurrence_comment] \<and>
            (\<forall>sig2 occ2 ruleName2 nt2. \<exists>res2 st''.
               upsertIssueForSignature e label sig2 sigHash occ2 ruleName2 nt2 st' =
                 (Inr res2, st'') \<and>
               kind res2 = Updated \<and> issueNumber res2 = number r)) \<and>
         closes_nothing st0 (snd (upsertIssueForSignature e0 label0 sig0 hash0 occ0 rule0 nt0 st0))"
proof -
  have u1: "upsertIssueForSignature e label sig sigHash occ ruleName nt st =
            upsert_found e r occ ruleName nt st"
    and fi: "find_issue st (number r) = Some r"
    using upsert_single_found [OF h f d] by simp_all
  obtain res F where r1: "upsert_found e r occ ruleName nt st = (Inr res, map_issue (number r) F st)"
      and k1: "kind res = (if state r = Closed then Reopened else Updated)"
      and n1: "issueNumber res = number r"
      and eff: "update_effect (state r = Closed) F"
    using upsert_found_ok [OF h fi, of occ ruleName nt] by blast
  let ?st' = "map_issue (number r) F st"
  have nF: "number (F r) = number r" using eff by (simp add: update_effect_def)
  have fi': "find_issue ?st' (number r) = Some (F r)"
    using fi nF by (intro find_issue_map_same) simp_all
  have sF: "state (F r) = Open" using eff c by (simp add: update_effect_def)
  have cF: "comments (F r) = comments r @ [recurrence_comment]"
    using eff c by (simp add: update_effect_def)
  have f': "filter (carries sigHash label) (issues ?st') = [F r]"
    and d': "distinct (map number (issues ?st'))"
    using carried_after_update [OF f d eff lab] by simp_all
  have second: "\<exists>res2 st''.
      upsertIssueForSignature e label sig2 sigHash occ2 ruleName2 nt2 ?st' = (Inr res2, st'') \<and>
      kind res2 = Updated \<and> issueNumber res2 = number r" for sig2 occ2 ruleName2 nt2
  proof -
    have u2: "upsertIssueForSignature e label sig2 sigHash occ2 ruleName2 nt2 ?st' =
              upsert_found e (F r) occ2 ruleName2 nt2 ?st'"
      and fi2: "find_issue ?st' (number (F r)) = Some (F r)"
      using upsert_single_found [OF h f' d'] by simp_all
    obtain res2 F2 where
        "upsert_found e (F r) occ2 ruleName2 nt2 ?st' =
           (Inr res2, map_issue (number (F r)) F2 ?st')"
        "kind res2 = (if state (F r) = Closed then Reopened else Updated)"
        "issueNumber res2 = number (F r)"
      using upsert_found_ok [OF h fi2, of occ2 ruleName2 nt2] by blast
    then show ?thesis using u2 sF nF by auto
  qed
  have first: "\<exists>res r' st'.
            upsertIssueForSignature e label sig sigHash occ ruleName nt st = (Inr res, st') \<and>
            kind res = Reopened \<and> issueNumber res = number r \<and>
            find_issue st' (number r) = Some r' \<and> state r' = Open \<and>
            comments r' = comments r @ [recurrence_comment] \<and>
            (\<forall>sig2 occ2 ruleName2 nt2. \<exists>res2 st''.
               upsertIssueForSignature e label sig2 sigHash occ2 ruleName2 nt2 st' =
                 (Inr res2, st'') \<and>
               kind res2 = Updated \<and> issueNumber res2 = number r)"
    apply (rule exI [of _ res])
    apply (rule exI [of _ "F r"])
    apply (rule exI [of _ ?st'])
    using u1 r1 k1 c n1 fi' sF cF second by simp
  show ?thesis using first cn_upsert by blast
qed

text \<open>
  On a record that the search does find, the threshold is a one-shot: it fires when the
  count is at or above a positive threshold and the marker is absent, it sets the marker,
  and no later upsert fires again.
\<close>

lemma threshold_one_shot_when_found:
  assumes h: "healthy e"
      and f: "filter (carries sigHash label) (issues st) = [r]"
      and d: "distinct (map number (issues st))"
      and lab: "\<not> starts_with label (js ''severity:'')"
  shows "\<exists>res st'.
           upsertIssueForSignature e label sig sigHash occ ruleName nt st = (Inr res, st') \<and>
           (thresholdReached res \<longleftrightarrow>
              0 < nt \<and> nt \<le> totalOccurrences res \<and>
              js ''threshold-reached'' \<notin> set (labels r)) \<and>
           (thresholdReached res \<longrightarrow>
              (\<forall>sig2 occ2 ruleName2 nt2. \<exists>res2 st''.
                 upsertIssueForSignature e label sig2 sigHash occ2 ruleName2 nt2 st' =
                   (Inr res2, st'') \<and> \<not> thresholdReached res2))"
proof -
  have u1: "upsertIssueForSignature e label sig sigHash occ ruleName nt st =
            upsert_found e r occ ruleName nt st"
    and fi: "find_issue st (number r) = Some r"
    using upsert_single_found [OF h f d] by simp_all
  obtain res F where r1: "upsert_found e r occ ruleName nt st = (Inr res, map_issue (number r) F st)"
      and t1: "thresholdReached res =
                 (nt > 0 \<and> totalOccurrences res \<ge> nt \<and> js ''threshold-reached'' \<notin> set (labels r))"
      and eff: "update_effect (state r = Closed) F"
      and lb: "thresholdReached res \<longrightarrow> (\<forall>x. js ''threshold-reached'' \<in> set (labels (F x)))"
    using upsert_found_ok [OF h fi, of occ ruleName nt] by blast
  let ?st' = "map_issue (number r) F st"
  have f': "filter (carries sigHash label) (issues ?st') = [F r]"
    and d': "distinct (map number (issues ?st'))"
    using carried_after_update [OF f d eff lab] by simp_all
  have second: "\<exists>res2 st''.
      upsertIssueForSignature e label sig2 sigHash occ2 ruleName2 nt2 ?st' = (Inr res2, st'') \<and>
      \<not> thresholdReached res2" if tr: "thresholdReached res" for sig2 occ2 ruleName2 nt2
  proof -
    have u2: "upsertIssueForSignature e label sig2 sigHash occ2 ruleName2 nt2 ?st' =
              upsert_found e (F r) occ2 ruleName2 nt2 ?st'"
      and fi2: "find_issue ?st' (number (F r)) = Some (F r)"
      using upsert_single_found [OF h f' d'] by simp_all
    obtain res2 F2 where
        "upsert_found e (F r) occ2 ruleName2 nt2 ?st' =
           (Inr res2, map_issue (number (F r)) F2 ?st')"
        "thresholdReached res2 =
           (nt2 > 0 \<and> totalOccurrences res2 \<ge> nt2 \<and>
            js ''threshold-reached'' \<notin> set (labels (F r)))"
      using upsert_found_ok [OF h fi2, of occ2 ruleName2 nt2] by blast
    moreover have "js ''threshold-reached'' \<in> set (labels (F r))" using lb tr by blast
    ultimately show ?thesis using u2 by auto
  qed
  show ?thesis
    apply (rule exI [of _ res])
    apply (rule exI [of _ ?st'])
    using u1 r1 t1 second by auto
qed

lemma show_nat_small: "show_nat (Suc 0) = js ''1''" "show_nat (Suc (Suc 0)) = js ''2''"
  "show_nat (Suc (Suc (Suc 0))) = js ''3''" "show_nat 1 = js ''1''" "show_nat 3 = js ''3''"
  by (simp_all add: show_nat_def js_def numeral_3_eq_3)

lemma classifySeverity_ESLint_0: "classifySeverity (js ''ESLint'') 0 = JStr (js ''low'')"
  by (simp add: classifySeverity_def obj_get_def js_or_def BASE_SEVERITY_def js_def)

text \<open>
  Claim C7. The threshold is to fire at the first upsert that brings the count of a record
  to the threshold, and with a threshold of 3 at the third upsert against a fingerprint.
  The code does neither from a record it creates itself. With a threshold of 1 the first
  upsert creates the record with one occurrence and reports no crossing and sets no marker.
  With a threshold of 3, three upserts of the example signature under its SHA-1
  fingerprint create three records: the title holds the first 8 characters of the
  fingerprint, the search asks for all 40, so no record is found again and no count grows.
\<close>

theorem threshold_never_reached_from_creation:
  "fst (ex_upsert 1 (js ''2026-11-01T00:00:00.000Z'') empty_store) = Inr (created_result 1) \<and>
   map labels (issues (snd (ex_upsert 1 (js ''2026-11-01T00:00:00.000Z'') empty_store))) =
     [[ex_label, js ''severity:low'']] \<and>
   fst (ex_upsert 3 (js ''2026-11-02T12:00:00.000Z'')
         (snd (ex_upsert 3 (js ''2026-11-02T00:00:00.000Z'')
           (snd (ex_upsert 3 (js ''2026-11-01T00:00:00.000Z'') empty_store))))) =
     Inr (created_result 3)"
  unfolding ex_upsert_def upsertIssueForSignature_def created_result_def
    classifySeverity_ESLint_0
  by (simp add: store_eval empty_store_def ex_env_def ex_label_def ex_hash_def ex_sig_def
        js_to_string_def show_nat_small js_def Let_def)

section \<open>The occurrence log and the statistics\<close>

lemma toggle_lt: "is_line_terminator c \<Longrightarrow> toggle_case c = c"
  by (auto simp: is_line_terminator_def toggle_case_def is_upper_def is_lower_def)

lemma cmatch_lt:
  assumes "\<not> P 10 \<and> \<not> P 13 \<and> \<not> P 8232 \<and> \<not> P 8233" and "is_line_terminator c"
  shows "\<not> cmatch fl P c"
proof -
  have "\<not> P c" using assms by (auto simp: is_line_terminator_def)
  then show ?thesis using assms(2) by (simp add: cmatch_def toggle_lt)
qed

lemma lit_local:
  assumes "list_all (\<lambda>c. \<not> is_line_terminator c) w" and "is_line_terminator c"
  shows "lit_match fl w (u @ c # v @ B) = lit_match fl w (u @ c # v) \<and>
         (lit_match fl w (u @ c # v) \<longrightarrow> length w \<le> length u)"
  using assms(1)
proof (induction w arbitrary: u)
  case Nil
  then show ?case by simp
next
  case (Cons a w)
  show ?case
  proof (cases u)
    case Nil
    have "\<not> cmatch fl (\<lambda>x. x = a) c"
      using Cons.prems assms(2) by (auto simp: cmatch_def toggle_lt)
    then show ?thesis using Nil by simp
  next
    case inner: (Cons d u')
    have "list_all (\<lambda>c. \<not> is_line_terminator c) w" using Cons.prems by simp
    then show ?thesis using Cons.IH [of u'] inner by auto
  qed
qed

lemma takeWhile_stop: "\<not> Q c \<Longrightarrow> takeWhile Q (u @ c # v) = takeWhile Q u"
  by (induction u) auto

lemma takeWhile_len: "length (takeWhile Q u) \<le> length u"
  by (induction u) auto

lemma rmatch_local:
  assumes "lt_free r" and "is_line_terminator c"
  shows "rmatch fl r p (u @ c # v @ B) = rmatch fl r p (u @ c # v) \<and>
         (\<forall>n \<in> set (rmatch fl r p (u @ c # v)). n \<le> length u)"
  using assms(1)
proof (induction r arbitrary: p u)
  case (Lit w)
  then show ?case using lit_local [OF _ assms(2), of w fl u v B] by simp
next
  case (Cls P)
  show ?case
  proof (cases u)
    case Nil
    then show ?thesis using cmatch_lt [OF _ assms(2), of P fl] Cls by simp
  next
    case (Cons d u')
    then show ?thesis by simp
  qed
next
  case (Rep P lo hi)
  have nc: "\<not> cmatch fl P c" using cmatch_lt [OF _ assms(2), of P fl] Rep by simp
  have e1: "takeWhile (cmatch fl P) (u @ c # v @ B) = takeWhile (cmatch fl P) u"
    using takeWhile_stop [of "cmatch fl P" c u "v @ B"] nc by simp
  have e2: "takeWhile (cmatch fl P) (u @ c # v) = takeWhile (cmatch fl P) u"
    using takeWhile_stop [of "cmatch fl P" c u v] nc by simp
  have le: "length (takeWhile (cmatch fl P) u) \<le> length u" by (rule takeWhile_len)
  have r: "rmatch fl (Rep P lo hi) p (u @ c # v @ B) = rmatch fl (Rep P lo hi) p (u @ c # v)"
    by (simp only: rmatch.simps e1 e2)
  have b: "\<forall>n \<in> set (rmatch fl (Rep P lo hi) p (u @ c # v)). n \<le> length u"
    using le by (simp only: rmatch.simps e2 Let_def) (auto split: option.splits)
  show ?case using r b by blast
next
  case (Seq a b)
  have la: "lt_free a" and lb: "lt_free b" using Seq.prems by simp_all
  have ea: "rmatch fl a p (u @ c # v @ B) = rmatch fl a p (u @ c # v)"
    and na: "\<forall>n \<in> set (rmatch fl a p (u @ c # v)). n \<le> length u"
    using Seq.IH(1) [OF la] by simp_all
  have inner: "rmatch fl b (prev_after p (u @ c # v @ B) n) (drop n (u @ c # v @ B)) =
               rmatch fl b (prev_after p (u @ c # v) n) (drop n (u @ c # v)) \<and>
               (\<forall>m \<in> set (rmatch fl b (prev_after p (u @ c # v) n) (drop n (u @ c # v))).
                  n + m \<le> length u)"
    if n: "n \<le> length u" for n
  proof -
    have d1: "drop n (u @ c # v @ B) = drop n u @ c # v @ B" using n by simp
    have d2: "drop n (u @ c # v) = drop n u @ c # v" using n by simp
    have pa: "prev_after p (u @ c # v @ B) n = prev_after p (u @ c # v) n"
      using n by (auto simp: prev_after_def nth_append)
    have "rmatch fl b (prev_after p (u @ c # v) n) (drop n u @ c # v @ B) =
          rmatch fl b (prev_after p (u @ c # v) n) (drop n u @ c # v) \<and>
          (\<forall>m \<in> set (rmatch fl b (prev_after p (u @ c # v) n) (drop n u @ c # v)).
             m \<le> length (drop n u))"
      by (rule Seq.IH(2) [OF lb])
    then show ?thesis unfolding d1 d2 pa using n by auto
  qed
  have eq: "map (\<lambda>n. map (\<lambda>k. n + k) (rmatch fl b (prev_after p (u @ c # v @ B) n)
                (drop n (u @ c # v @ B)))) (rmatch fl a p (u @ c # v)) =
            map (\<lambda>n. map (\<lambda>k. n + k) (rmatch fl b (prev_after p (u @ c # v) n)
                (drop n (u @ c # v)))) (rmatch fl a p (u @ c # v))"
  proof (rule map_cong)
    fix n assume "n \<in> set (rmatch fl a p (u @ c # v))"
    then have "n \<le> length u" using na by blast
    then show "map (\<lambda>k. n + k) (rmatch fl b (prev_after p (u @ c # v @ B) n)
                (drop n (u @ c # v @ B))) =
               map (\<lambda>k. n + k) (rmatch fl b (prev_after p (u @ c # v) n)
                (drop n (u @ c # v)))"
      using inner [of n] by simp
  qed simp
  have bound: "\<forall>n \<in> set (rmatch fl (Seq a b) p (u @ c # v)). n \<le> length u"
  proof
    fix k assume "k \<in> set (rmatch fl (Seq a b) p (u @ c # v))"
    then obtain n m where n: "n \<in> set (rmatch fl a p (u @ c # v))"
      and m: "m \<in> set (rmatch fl b (prev_after p (u @ c # v) n) (drop n (u @ c # v)))"
      and k: "k = n + m" by auto
    have "n \<le> length u" using na n by blast
    then show "k \<le> length u" using inner [of n] m k by blast
  qed
  have "rmatch fl (Seq a b) p (u @ c # v @ B) = rmatch fl (Seq a b) p (u @ c # v)"
    by (simp only: rmatch.simps ea eq)
  then show ?case using bound by blast
next
  case (Alt a b)
  have "lt_free a" "lt_free b" using Alt.prems by simp_all
  then show ?case using Alt.IH(1) [of p u] Alt.IH(2) [of p u] by (simp add: ball_Un)
next
  case (Opt a)
  have "lt_free a" using Opt.prems by simp
  then show ?case using Opt.IH [of p u] by simp
next
  case Bol
  show ?case by (simp split: option.splits)
next
  case Eol
  show ?case by (cases u) simp_all
next
  case WordB
  show ?case by (cases u) (simp_all add: Let_def)
qed

lemma first_terminator:
  assumes "A \<noteq> []" and "is_line_terminator (last A)"
  shows "\<exists>u c v. A = u @ c # v \<and> is_line_terminator c"
proof -
  have "A = butlast A @ last A # []" using assms(1) by simp
  then show ?thesis using assms(2) by blast
qed

lemma rmatch_before_terminator:
  assumes "lt_free r" and "A \<noteq> []" and "is_line_terminator (last A)"
  shows "rmatch fl r p (A @ B) = rmatch fl r p A \<and> (\<forall>n \<in> set (rmatch fl r p A). n < length A)"
proof -
  obtain u c v where A: "A = u @ c # v" and c: "is_line_terminator c"
    using first_terminator [OF assms(2,3)] by blast
  have "rmatch fl r p (u @ c # v @ B) = rmatch fl r p (u @ c # v) \<and>
        (\<forall>n \<in> set (rmatch fl r p (u @ c # v)). n \<le> length u)"
    by (rule rmatch_local [OF assms(1) c])
  then show ?thesis using A by auto
qed

lemma scan_all_lines:
  assumes "lt_free r"
  shows "A \<noteq> [] \<Longrightarrow> is_line_terminator (last A) \<Longrightarrow>
         scan_all fl r p (A @ B) = scan_all fl r p A @ scan_all fl r (Some (last A)) B"
proof (induction "length A" arbitrary: A p rule: less_induct)
  case less
  obtain c cs where A: "A = c # cs" using less.prems(1) by (cases A) auto
  have rm: "rmatch fl r p (c # cs @ B) = rmatch fl r p (c # cs)"
    and bd: "\<forall>n \<in> set (rmatch fl r p (c # cs)). n < length (c # cs)"
    using rmatch_before_terminator [OF assms less.prems, of fl p B] A by simp_all
  have step: "scan_all fl r (Some c) (cs @ B) =
              scan_all fl r (Some c) cs @ scan_all fl r (Some (last A)) B"
  proof (cases cs)
    case Nil
    then show ?thesis using A by simp
  next
    case (Cons d ds)
    have "scan_all fl r (Some c) (cs @ B) =
          scan_all fl r (Some c) cs @ scan_all fl r (Some (last cs)) B"
      using less.hyps [of cs "Some c"] less.prems A Cons by simp
    then show ?thesis using A Cons by simp
  qed
  show ?case
  proof (cases "rmatch fl r p (c # cs)")
    case Nil
    then show ?thesis using A rm step by simp
  next
    case (Cons n ns)
    show ?thesis
    proof (cases "n = 0")
      case True
      then show ?thesis using A rm step Cons by simp
    next
      case False
      have nlt: "n < length (c # cs)" using bd Cons by simp
      let ?D = "drop n (c # cs)"
      have dne: "?D \<noteq> []" using nlt by simp
      have dl: "last ?D = last A" using nlt A by simp
      have len: "length ?D < length A" using False A by simp
      have "n - 1 < length (c # cs)" using nlt by arith
      then have "((c # cs) @ B) ! (n - 1) = (c # cs) ! (n - 1)"
        by (simp only: nth_append if_True)
      then have "(c # cs @ B) ! (n - 1) = (c # cs) ! (n - 1)" by simp
      then have pa: "prev_after p (c # cs @ B) n = prev_after p (c # cs) n"
        by (simp add: prev_after_def)
      have "take n ((c # cs) @ B) = take n (c # cs)" using nlt by (simp only: take_append) simp
      then have tk: "take n (c # cs @ B) = take n (c # cs)" by simp
      have "drop n ((c # cs) @ B) = ?D @ B" using nlt by (simp only: drop_append) simp
      then have dr: "drop n (c # cs @ B) = ?D @ B" by simp
      have ih: "scan_all fl r (prev_after p (c # cs) n) (?D @ B) =
                scan_all fl r (prev_after p (c # cs) n) ?D @ scan_all fl r (Some (last A)) B"
        using less.hyps [OF len dne, of "prev_after p (c # cs) n"] less.prems(2) dl by simp
      have l: "scan_all fl r p (A @ B) =
               take n (c # cs @ B) # scan_all fl r (prev_after p (c # cs @ B) n) (drop n (c # cs @ B))"
        using A rm Cons False by simp
      have r: "scan_all fl r p A =
               take n (c # cs) # scan_all fl r (prev_after p (c # cs) n) ?D"
        using A Cons False by simp
      show ?thesis unfolding l r pa tk dr ih by simp
    qed
  qed
qed

lemma bullet_re_shape: "\<exists>Y. bullet_re = Seq Bol (Seq (Lit [45, 32]) Y)"
  by (simp add: bullet_re_def js_def)

lemma bullet_head_None:
  "line_start p \<Longrightarrow>
   rmatch flags_m (Seq Bol (Seq (Lit [45, 32]) Y)) p s =
   rmatch flags_m (Seq Bol (Seq (Lit [45, 32]) Y)) None s"
  by (cases p) (simp_all add: line_start_def flags_m_def prev_after_def)

lemma bullet_head_Nil:
  "\<not> (line_start p \<and> c = 45) \<Longrightarrow>
   rmatch flags_m (Seq Bol (Seq (Lit [45, 32]) Y)) p (c # cs) = []"
  by (cases p) (auto simp: line_start_def flags_m_def prev_after_def cmatch_def)

lemma rmatch_bullet_line_start:
  "line_start p \<Longrightarrow> rmatch flags_m bullet_re p s = rmatch flags_m bullet_re None s"
  using bullet_re_shape bullet_head_None by metis

lemma rmatch_bullet_Nil:
  "\<not> (line_start p \<and> c = 45) \<Longrightarrow> rmatch flags_m bullet_re p (c # cs) = []"
  using bullet_re_shape bullet_head_Nil by metis

lemma scan_all_line_start:
  "line_start p \<Longrightarrow> scan_all flags_m bullet_re p s = scan_all flags_m bullet_re None s"
  by (cases s) (auto simp: rmatch_bullet_line_start prev_after_def split: list.splits)

lemma scan_all_no_bullet:
  "no_bullet_start p t \<Longrightarrow> scan_all flags_m bullet_re p t = []"
  by (induction t arbitrary: p) (simp_all add: rmatch_bullet_Nil)

lemma lt_free_bullet: "lt_free bullet_re"
  by (simp add: bullet_re_def rep_n_def js_def is_digit_def is_line_terminator_def)

lemma no_bullet_start_append:
  "no_bullet_start p (a @ b) \<longleftrightarrow>
   no_bullet_start p a \<and> no_bullet_start (if a = [] then p else Some (last a)) b"
  by (induction a arbitrary: p) auto

lemma no_bullet_start_inside:
  "\<not> line_start p \<Longrightarrow> list_all (\<lambda>c. \<not> is_line_terminator c) a \<Longrightarrow> no_bullet_start p a"
  by (induction a arbitrary: p) (auto simp: line_start_def)

lemma timestamp_shape_length: "timestamp_shape w \<Longrightarrow> length w = 24"
  unfolding timestamp_shape_def iso_format_def by (drule list_all2_lengthD) simp

lemma timestamp_shape_nth:
  assumes "timestamp_shape w" and "i < 24"
  shows "(iso_format ! i) (w ! i)"
  using assms unfolding timestamp_shape_def
  by (simp add: list_all2_conv_all_nth iso_format_def)

lemma timestamp_shape_last: "timestamp_shape w \<Longrightarrow> w ! 23 = 90"
  using timestamp_shape_nth [of w 23] by (simp add: iso_format_def)

lemma shape_all:
  "list_all2 (\<lambda>P c. P c) fmt w \<Longrightarrow> list_all (\<lambda>P. \<forall>c. P c \<longrightarrow> Q c) fmt \<Longrightarrow> list_all Q w"
  by (induction rule: list_all2_induct) auto

lemma timestamp_shape_chars:
  assumes "timestamp_shape w"
  shows "list_all (\<lambda>c. c \<noteq> 36 \<and> \<not> is_line_terminator c) w"
proof (rule shape_all)
  show "list_all2 (\<lambda>P c. P c) iso_format w" using assms by (simp add: timestamp_shape_def)
  show "list_all (\<lambda>P. \<forall>c. P c \<longrightarrow> c \<noteq> 36 \<and> \<not> is_line_terminator c) iso_format"
    by (simp add: iso_format_def is_digit_def is_line_terminator_def)
qed

lemma shape_explicit:
  assumes "timestamp_shape w"
  obtains a b c d e f g h i j k l m n x y z where
    "w = [a, b, c, d, 45, e, f, 45, g, h, 84, i, j, 58, k, l, 58, m, n, 46, x, y, z, 90]"
    "is_digit a" "is_digit b" "is_digit c" "is_digit d" "is_digit e" "is_digit f"
    "is_digit g" "is_digit h" "is_digit i" "is_digit j" "is_digit k" "is_digit l"
    "is_digit m" "is_digit n" "is_digit x" "is_digit y" "is_digit z"
  using assms unfolding timestamp_shape_def iso_format_def
  by (auto simp: list_all2_Cons1)

lemma rmatch_bullet_timestamp:
  assumes "timestamp_shape w"
  shows "rmatch flags_m bullet_re None (js ''- '' @ w @ t) = [26]"
proof -
  obtain a b c d e f g h i j k l m n x y z where
    w: "w = [a, b, c, d, 45, e, f, 45, g, h, 84, i, j, 58, k, l, 58, m, n, 46, x, y, z, 90]"
    and dg: "is_digit a" "is_digit b" "is_digit c" "is_digit d" "is_digit e" "is_digit f"
    "is_digit g" "is_digit h" "is_digit i" "is_digit j" "is_digit k" "is_digit l"
    "is_digit m" "is_digit n" "is_digit x" "is_digit y" "is_digit z"
    using shape_explicit [OF assms] by blast
  have nd: "\<not> is_digit 45" "\<not> is_digit 84" "\<not> is_digit 58" "\<not> is_digit 46" "\<not> is_digit 90"
    by (simp_all add: is_digit_def)
  show ?thesis
    by (simp add: w bullet_re_def rep_n_def js_def flags_m_def cmatch_def
        prev_after_def Let_def dg nd)
qed

lemma rmatch_bullet_muted:
  "rmatch flags_m bullet_re None (js ''- [muted] '' @ t) = []"
  by (simp add: bullet_re_def rep_n_def js_def flags_m_def cmatch_def
        prev_after_def is_digit_def Let_def)












lemma heading_ne: "js ''## Occurrences'' @ nl @ R \<noteq> []"
  by (simp add: nl_def)






lemma plain_field_set: "plain_field s \<Longrightarrow> 36 \<notin> set s \<and> list_all (\<lambda>c. \<not> is_line_terminator c) s"
  by (auto simp: plain_field_def list_all_iff)



lemma scan_split:
  assumes "A \<noteq> []" and "is_line_terminator (last A)"
  shows "scan_all flags_m bullet_re p (A @ B) =
         scan_all flags_m bullet_re p A @ scan_all flags_m bullet_re None B"
proof -
  have "line_start (Some (last A))" using assms(2) by (simp add: line_start_def)
  then have "scan_all flags_m bullet_re (Some (last A)) B = scan_all flags_m bullet_re None B"
    by (rule scan_all_line_start)
  then show ?thesis using scan_all_lines [OF lt_free_bullet assms, of flags_m p B] by simp
qed

lemma parse_split:
  assumes "A \<noteq> []" and "is_line_terminator (last A)"
  shows "parseOccurrenceTimestamps e (A @ B) =
         parseOccurrenceTimestamps e A @ parseOccurrenceTimestamps e B"
  unfolding parseOccurrenceTimestamps_def scan_split [OF assms] by simp


lemma no_bullet_append_inside:
  assumes "\<not> line_start p" and "list_all (\<lambda>c. \<not> is_line_terminator c) a"
      and "\<And>q. \<not> line_start q \<Longrightarrow> no_bullet_start q b"
  shows "no_bullet_start p (a @ b)"
proof -
  have a: "no_bullet_start p a" by (rule no_bullet_start_inside [OF assms(1,2)])
  have "\<not> line_start (if a = [] then p else Some (last a))"
    using assms(1,2) by (cases a rule: rev_cases) (auto simp: line_start_def)
  then show ?thesis using a assms(3) by (simp add: no_bullet_start_append)
qed

lemma explainer_no_bullet:
  assumes "list_all (\<lambda>c. \<not> is_line_terminator c) ctx"
  shows "no_bullet_start q ((if ctx \<noteq> [] then nl @ js ''  > '' @ ctx else []) @ nl)"
proof (cases "ctx = []")
  case True
  then show ?thesis by (simp add: nl_def)
next
  case False
  have l: "list_all (\<lambda>c. \<not> is_line_terminator c) (js '' > '' @ ctx)"
    using assms by (simp add: js_def is_line_terminator_def)
  have n: "\<not> line_start (Some 32)" by (simp add: line_start_def is_line_terminator_def)
  have "no_bullet_start (Some 32) ((js '' > '' @ ctx) @ [10])"
    by (rule no_bullet_append_inside [OF n l]) simp
  then show ?thesis using False by (simp add: nl_def js_def)
qed

lemma occurrence_tail_rest: "occurrence_tail occ = when_ts occ @ occurrence_rest occ"
  by (simp add: occurrence_tail_def occurrence_rest_def)

lemma rest_no_bullet:
  assumes po: "plain_occurrence occ" and p: "\<not> line_start p"
  shows "no_bullet_start p (occurrence_rest occ @ nl)"
proof -
  let ?Y = "em_dash @ runUrl occ @
            (if sourceRepo occ \<noteq> [] then js '' ('' @ sourceRepo occ @ js '')'' else [])"
  let ?E = "(if explainerContext occ \<noteq> [] then nl @ js ''  > '' @ explainerContext occ else [])
            @ nl"
  have f: "list_all (\<lambda>c. \<not> is_line_terminator c) (runUrl occ)"
      "list_all (\<lambda>c. \<not> is_line_terminator c) (sourceRepo occ)"
      "list_all (\<lambda>c. \<not> is_line_terminator c) (explainerContext occ)"
    using po plain_field_set by (auto simp: plain_occurrence_def)
  have y: "list_all (\<lambda>c. \<not> is_line_terminator c) ?Y"
    using f by (simp add: em_dash_def js_def is_line_terminator_def)
  have "no_bullet_start p (?Y @ ?E)"
    by (rule no_bullet_append_inside [OF p y]) (rule explainer_no_bullet [OF f(3)])
  then show ?thesis by (simp add: occurrence_rest_def)
qed

lemma scan_plain_line:
  assumes po: "plain_occurrence occ"
  shows "scan_all flags_m bullet_re None (occurrence_line False occ @ nl) =
         [js ''- '' @ when_ts occ]"
proof -
  let ?w = "when_ts occ"
  let ?X = "occurrence_rest occ @ nl"
  have sh: "timestamp_shape ?w" using po by (simp add: plain_occurrence_def)
  have len: "length ?w = 24" by (rule timestamp_shape_length [OF sh])
  have A: "occurrence_line False occ @ nl = 45 # 32 # ?w @ ?X"
    by (simp add: occurrence_line_def occurrence_tail_rest js_def)
  have rm: "rmatch flags_m bullet_re None (45 # 32 # ?w @ ?X) = [26]"
    using rmatch_bullet_timestamp [OF sh, of ?X] by (simp add: js_def)
  have tk: "take 26 (45 # 32 # ?w @ ?X) = js ''- '' @ ?w"
    using len by (simp add: js_def)
  have dr: "drop 26 (45 # 32 # ?w @ ?X) = ?X" using len by simp
  have "(45 # 32 # ?w @ ?X) ! 25 = ?w ! 23"
    using len by (simp add: nth_Cons' nth_append)
  then have pa: "prev_after None (45 # 32 # ?w @ ?X) 26 = Some 90"
    using timestamp_shape_last [OF sh] by (simp add: prev_after_def)
  have "\<not> line_start (Some 90)" by (simp add: line_start_def is_line_terminator_def)
  then have rest: "scan_all flags_m bullet_re (Some 90) ?X = []"
    using rest_no_bullet [OF po] scan_all_no_bullet by blast
  show ?thesis
    unfolding A scan_all.simps rm list.case tk dr pa rest by simp
qed

lemma scan_muted_line:
  assumes po: "plain_occurrence occ"
  shows "scan_all flags_m bullet_re None (occurrence_line True occ @ nl) = []"
proof -
  let ?t = "js ''[muted] '' @ occurrence_tail occ @ nl"
  have A: "occurrence_line True occ @ nl = 45 # 32 # ?t"
    by (simp add: occurrence_line_def js_def)
  have rm: "rmatch flags_m bullet_re None (45 # 32 # ?t) = []"
    using rmatch_bullet_muted [of "occurrence_tail occ @ nl"] by (simp add: js_def)
  have w: "list_all (\<lambda>c. \<not> is_line_terminator c) (when_ts occ)"
    using timestamp_shape_chars [of "when_ts occ"] po
    by (auto simp: plain_occurrence_def list_all_iff)
  then have l: "list_all (\<lambda>c. \<not> is_line_terminator c) (32 # js ''[muted] '' @ when_ts occ)"
    by (simp add: js_def is_line_terminator_def)
  have n: "\<not> line_start (Some 45)" by (simp add: line_start_def is_line_terminator_def)
  have "no_bullet_start (Some 45) ((32 # js ''[muted] '' @ when_ts occ) @ occurrence_rest occ @ nl)"
    by (rule no_bullet_append_inside [OF n l]) (rule rest_no_bullet [OF po])
  then have "no_bullet_start (Some 45) (32 # ?t)" by (simp add: occurrence_tail_rest)
  then have rest: "scan_all flags_m bullet_re (Some 45) (32 # ?t) = []"
    by (rule scan_all_no_bullet)
  show ?thesis unfolding A scan_all.simps(2) [of _ _ _ 45] rm list.case rest by simp
qed

lemma parse_occurrence_line:
  assumes po: "plain_occurrence occ"
  shows "parseOccurrenceTimestamps e (occurrence_line mu occ @ nl) =
         (if mu then [] else [parse_date e (when_ts occ)])"
  unfolding parseOccurrenceTimestamps_def
  using scan_plain_line [OF po] scan_muted_line [OF po] by (cases mu) (simp_all add: js_def)
















section \<open>A closed record and the next upsert\<close>

lemma upsert_creates_when_not_found:
  assumes h: "healthy e" and nf: "filter (carries sigHash label) (issues st) = []"
  shows "upsertIssueForSignature e label sig sigHash occ rn nt st =
     (Inr \<lparr>kind = Created, issueNumber = fresh_number st, url = url_of e (fresh_number st),
           severity = classifySeverity rn 0, muted = False, totalOccurrences = 1,
           thresholdReached = False\<rparr>,
      st\<lparr>issues := issues st @
        [\<lparr>number = fresh_number st,
          title = js ''[CI Pattern '' @ take 8 sigHash @ js ''] '' @ take 120 sig,
          body = ISSUE_MARKER @ nl @ nl @ js ''**Signature:**'' @ nl @ js ''```'' @ nl @ sig @ nl @
                 js ''```'' @ nl @ nl @ js ''## Occurrences'' @ nl @ js ''- '' @
                 occurrence_tail occ @ nl,
          state = Open,
          labels = remdups [label, js ''severity:'' @ js_to_string (classifySeverity rn 0)],
          comments = [], html_url = url_of e (fresh_number st)\<rparr>]\<rparr>)"
proof -
  have s1: "api_search_issues e (Some sigHash) label None 10 st = (Inr [], st)"
    using search_ok [OF h, of sigHash label 10 st] nf by simp
  have "filter (\<lambda>i. js_includes (title i) sigHash \<and> label \<in> set (labels i) \<and> state i = Closed)
          (issues st) =
        filter (\<lambda>i. state i = Closed) (filter (carries sigHash label) (issues st))"
    by (simp add: carries_def conj_commute conj_left_commute cong: conj_cong)
  then have s2: "api_search_issues e (Some sigHash) label (Some Closed) 10 st = (Inr [], st)"
    using h nf by (simp add: healthy_def api_search_issues_def ret_def)
  have c: "\<not> faulty e IssuesCreate" using h by (simp add: healthy_def)
  show ?thesis
    unfolding upsertIssueForSignature_def bind_def s1 prod.case sum.case
    by (simp add: s2 ret_def api_create_def c Let_def del: remdups.simps)
qed

lemma ex_env_healthy: "healthy ex_env"
  by (simp add: healthy_def ex_env_def)

lemma own_title_not_found: "\<not> carries ex_hash ex_label (created_record n t)"
  by (simp add: carries_def created_record_def ex_hash_def ex_sig_def js_def)

lemma swept_title_not_found: "\<not> carries ex_hash ex_label (swept_record n t)"
  using own_title_not_found [of n t] by (simp add: carries_def swept_record_def)

lemma ex_created_new:
  "\<lparr>number = n,
    title = js ''[CI Pattern '' @ take 8 ex_hash @ js ''] '' @ take 120 ex_sig,
    body = ISSUE_MARKER @ nl @ nl @ js ''**Signature:**'' @ nl @ js ''```'' @ nl @ ex_sig @ nl @
           js ''```'' @ nl @ nl @ js ''## Occurrences'' @ nl @ js ''- '' @
           occurrence_tail (ex_occ t) @ nl,
    state = Open,
    labels = remdups [ex_label, js ''severity:'' @ js_to_string (classifySeverity (js ''ESLint'') 0)],
    comments = [], html_url = url_of ex_env n\<rparr> = created_record n t"
  unfolding classifySeverity_ESLint_0
  by (simp add: created_record_def ex_hash_def ex_sig_def ex_label_def ex_env_def
        occurrence_tail_def ex_occ_def js_to_string_def js_def)

lemma ex_created_result:
  "\<lparr>kind = Created, issueNumber = n, url = url_of ex_env n,
    severity = classifySeverity (js ''ESLint'') 0, muted = False, totalOccurrences = 1,
    thresholdReached = False\<rparr> = created_result n"
  unfolding classifySeverity_ESLint_0 by (simp add: created_result_def ex_env_def)

lemma ex_upsert_creates:
  assumes "filter (carries ex_hash ex_label) (issues st) = []"
  shows "ex_upsert nt t st =
         (Inr (created_result (fresh_number st)),
          st\<lparr>issues := issues st @ [created_record (fresh_number st) t]\<rparr>)"
  unfolding ex_upsert_def
    upsert_creates_when_not_found [OF ex_env_healthy assms] ex_created_new ex_created_result
  by (rule refl)

lemma ex_occ_plain_iff: "plain_occurrence (ex_occ t) = timestamp_shape t"
  by (simp add: plain_occurrence_def ex_occ_def plain_field_def js_def is_line_terminator_def)

lemma created_body_parts:
  "body (created_record n t) =
   (ISSUE_MARKER @ nl @ nl @ js ''**Signature:**'' @ nl @ js ''```'' @ nl @ ex_sig @ nl @
    js ''```'' @ nl @ nl @ js ''## Occurrences'' @ nl) @
   (occurrence_line False (ex_occ t) @ nl)"
  by (simp add: created_record_def occurrence_line_def occurrence_tail_def ex_occ_def)

lemma created_head_timestamps:
  "parseOccurrenceTimestamps e
     (ISSUE_MARKER @ nl @ nl @ js ''**Signature:**'' @ nl @ js ''```'' @ nl @ ex_sig @ nl @
      js ''```'' @ nl @ nl @ js ''## Occurrences'' @ nl) = []"
proof -
  have "no_bullet_start None
     (ISSUE_MARKER @ nl @ nl @ js ''**Signature:**'' @ nl @ js ''```'' @ nl @ ex_sig @ nl @
      js ''```'' @ nl @ nl @ js ''## Occurrences'' @ nl)"
    by (simp add: ISSUE_MARKER_def ex_sig_def nl_def js_def line_start_def
          is_line_terminator_def)
  then show ?thesis
    unfolding parseOccurrenceTimestamps_def by (simp add: scan_all_no_bullet)
qed

lemma created_timestamps:
  assumes "timestamp_shape t"
  shows "parseOccurrenceTimestamps e (body (created_record n t)) = [parse_date e t]"
proof -
  have po: "plain_occurrence (ex_occ t)" using assms by (simp add: ex_occ_plain_iff)
  have ne: "ISSUE_MARKER @ nl @ nl @ js ''**Signature:**'' @ nl @ js ''```'' @ nl @ ex_sig @ nl @
            js ''```'' @ nl @ nl @ js ''## Occurrences'' @ nl \<noteq> []"
    "is_line_terminator (last (ISSUE_MARKER @ nl @ nl @ js ''**Signature:**'' @ nl @ js ''```'' @
       nl @ ex_sig @ nl @ js ''```'' @ nl @ nl @ js ''## Occurrences'' @ nl))"
    by (simp_all add: nl_def is_line_terminator_def)
  have w: "when_ts (ex_occ t) = t" by (simp add: ex_occ_def)
  show ?thesis
    unfolding created_body_parts parse_split [OF ne] created_head_timestamps
      parse_occurrence_line [OF po] w
    by simp
qed

lemma created_old_timestamps:
  "parseOccurrenceTimestamps ex_env (body (created_record n (js ''2026-10-01T00:00:00.000Z''))) =
   [Some 1790812800000]"
proof -
  have "timestamp_shape (js ''2026-10-01T00:00:00.000Z'')"
    by (simp add: timestamp_shape_def iso_format_def js_def is_digit_def)
  then show ?thesis
    by (simp add: created_timestamps) (simp add: ex_env_def ex_dates_def js_def)
qed

lemma sweep_closes_created:
  "autoCloseQuietIssues ex_env ex_label 14
     \<lparr>issues = [created_record 1 (js ''2026-10-01T00:00:00.000Z'')], pulls = []\<rparr> =
   (Inr [1], \<lparr>issues = [swept_record 1 (js ''2026-10-01T00:00:00.000Z'')], pulls = []\<rparr>)"
proof -
  let ?t = "js ''2026-10-01T00:00:00.000Z''"
  let ?st = "\<lparr>issues = [created_record 1 ?t], pulls = []\<rparr>"
  let ?c = "(created_record 1 ?t)\<lparr>comments := [close_message (Some 33) []]\<rparr>"
  have n: "\<And>n t. number (created_record n t) = n" by (simp add: created_record_def)
  have d: "(now ex_env - 1790812800000) div 86400000 = 33" by (simp add: ex_env_def)
  have s: "api_search_issues ex_env None ex_label (Some Open) 50 ?st =
           (Inr [created_record 1 ?t], ?st)"
    by (simp add: api_search_issues_def ret_def ex_env_def created_record_def)
  have "sweep_item ex_env (now ex_env - 14 * 86400000) (created_record 1 ?t) ?st =
        (if faulty ex_env (IssuesUpdate 1)
         then (Inl (RequestFailed (IssuesUpdate 1)), \<lparr>issues = [?c], pulls = []\<rparr>)
         else (Inr (Some 1), map_issue 1 (\<lambda>i. i\<lparr>state := Closed\<rparr>)
                \<lparr>issues = [?c], pulls = []\<rparr>))"
  proof (rule sweep_item_quiet [where iss = "created_record 1 ?t" and issc = ?c])
    show "\<not> faulty ex_env (IssuesGet 1)" "\<not> faulty ex_env (SearchPulls 1)"
      "\<not> faulty ex_env (IssuesCreateComment 1)"
      by (simp_all add: ex_env_def)
    show "number (created_record 1 ?t) = 1" by (rule n)
    show "find_issue ?st 1 = Some (created_record 1 ?t)" by (simp add: find_issue_def n)
    show "parseOccurrenceTimestamps ex_env (body (created_record 1 ?t)) = [Some 1790812800000]"
      by (rule created_old_timestamps)
    show "(1790812800000::int) < now ex_env - 14 * 86400000" by (simp add: ex_env_def)
    show "pulls ?st = []" by simp
    show "\<lparr>issues = [?c], pulls = []\<rparr> =
          map_issue 1 (\<lambda>i. i\<lparr>comments := comments i @
            [close_message (Some ((now ex_env - 1790812800000) div 86400000)) []]\<rparr>) ?st"
      unfolding d by (simp add: map_issue_def n) (simp add: created_record_def)
    show "find_issue \<lparr>issues = [?c], pulls = []\<rparr> 1 = Some ?c"
      by (simp add: find_issue_def n)
  qed
  then have i: "sweep_item ex_env (now ex_env - 14 * 86400000) (created_record 1 ?t) ?st =
                (Inr (Some 1), \<lparr>issues = [swept_record 1 ?t], pulls = []\<rparr>)"
    by (simp add: ex_env_def map_issue_def n swept_record_def)
  have "autoCloseQuietIssues ex_env ex_label 14 ?st =
        bind (api_search_issues ex_env None ex_label (Some Open) 50)
          (\<lambda>items. sweep_loop ex_env (now ex_env - 14 * 86400000) items []) ?st"
    by (simp add: autoCloseQuietIssues_def)
  also have "\<dots> = (Inr [1], \<lparr>issues = [swept_record 1 ?t], pulls = []\<rparr>)"
    unfolding bind_def s prod.case sum.case sweep_loop.simps i option.case
    by (simp add: ret_def)
  finally show ?thesis .
qed

text \<open>
  Claim C8. An upsert against a fingerprint whose only record is closed is to open that
  record again and return the decision reopened. The code does not, for a record it created
  itself: the title it writes holds the first 8 characters of the fingerprint and its search
  asks for all 40. The first upsert of the example signature creates record 1, the sweep
  closes it after the quiet period, and the next upsert of the same signature finds nothing:
  it returns the decision created for a new record 2 and leaves record 1 closed, without
  recurrence comment.
\<close>

theorem closed_record_not_reopened:
  "ex_upsert 0 (js ''2026-10-01T00:00:00.000Z'') empty_store =
     (Inr (created_result 1),
      \<lparr>issues = [created_record 1 (js ''2026-10-01T00:00:00.000Z'')], pulls = []\<rparr>) \<and>
   autoCloseQuietIssues ex_env ex_label 14
       \<lparr>issues = [created_record 1 (js ''2026-10-01T00:00:00.000Z'')], pulls = []\<rparr> =
     (Inr [1], \<lparr>issues = [swept_record 1 (js ''2026-10-01T00:00:00.000Z'')], pulls = []\<rparr>) \<and>
   state (swept_record 1 (js ''2026-10-01T00:00:00.000Z'')) = Closed \<and>
   ex_upsert 0 (js ''2026-11-02T00:00:00.000Z'')
       \<lparr>issues = [swept_record 1 (js ''2026-10-01T00:00:00.000Z'')], pulls = []\<rparr> =
     (Inr (created_result 2),
      \<lparr>issues = [swept_record 1 (js ''2026-10-01T00:00:00.000Z''),
                 created_record 2 (js ''2026-11-02T00:00:00.000Z'')], pulls = []\<rparr>)"
proof -
  let ?t = "js ''2026-10-01T00:00:00.000Z''"
  have a: "ex_upsert 0 ?t empty_store =
           (Inr (created_result 1), \<lparr>issues = [created_record 1 ?t], pulls = []\<rparr>)"
    using ex_upsert_creates [of empty_store 0 ?t]
    by (simp add: empty_store_def fresh_number_def)
  have c: "state (swept_record 1 ?t) = Closed" by (simp add: swept_record_def)
  have f: "fresh_number \<lparr>issues = [swept_record 1 ?t], pulls = []\<rparr> = 2"
    by (simp add: fresh_number_def swept_record_def created_record_def)
  have "filter (carries ex_hash ex_label)
          (issues \<lparr>issues = [swept_record 1 ?t], pulls = []\<rparr>) = []"
    using swept_title_not_found [of 1 ?t] by simp
  then have b: "ex_upsert 0 (js ''2026-11-02T00:00:00.000Z'')
                  \<lparr>issues = [swept_record 1 ?t], pulls = []\<rparr> =
                (Inr (created_result 2),
                 \<lparr>issues = [swept_record 1 ?t,
                            created_record 2 (js ''2026-11-02T00:00:00.000Z'')], pulls = []\<rparr>)"
    using ex_upsert_creates [of "\<lparr>issues = [swept_record 1 ?t], pulls = []\<rparr>" 0
        "js ''2026-11-02T00:00:00.000Z''"]
    unfolding f by simp
  show ?thesis using a sweep_closes_created c b by blast
qed


end
